theory Spec2Isabelle
  imports Complex_Main "HOL-Library.Sublist"
begin

section \<open>Data model of \<open>bot.py\<close>\<close>

text \<open>
  The dispatch engine of \<open>src/bot.py\<close>: the channel registry (\<open>channels.json\<close>), the
  ledger (\<open>posts.json\<close>), the outbox (\<open>outbox.json\<close>), the two in-memory trackers
  \<open>last_sent_times\<close> and \<open>forbidden_counts\<close>, the broadcast \<open>broadcast_copy\<close> and the
  sweep \<open>outbox_loop\<close>.

  Times are exact rationals (seconds); the rounding of Python's floats is not modelled.
\<close>

type_synonym channel = string
type_synonym time = rat

text \<open>An exception: \<open>type(e).__name__\<close> and \<open>str(e)\<close>.\<close>

datatype exn = Exn (exn_name: string) (exn_msg: string)

text \<open>One element of a \<open>results\<close> list: \<open>{'channel': .., 'status': .., 'err': ..}\<close>.\<close>

record result =
  r_channel :: channel
  r_status :: string
  r_err :: "string option"

text \<open>The dictionary \<open>broadcast_copy\<close> hands to \<open>record_post\<close>.\<close>

record post =
  p_type :: string
  p_from_chat_id :: int
  p_message_id :: int
  p_results :: "result list"
  p_origin_admin :: "int option"
  p_time :: time

text \<open>
  An element of \<open>outbox.json\<close>. Every key is optional, as in a dictionary read from a
  file: \<open>entry.get(k)\<close> is the field, \<open>None\<close> when the key is missing.
\<close>

record entry =
  e_type :: "string option"
  e_from_chat_id :: "int option"
  e_message_id :: "int option"
  e_send_at :: "string option"
  e_status :: "string option"
  e_origin_admin :: "int option"
  e_file_path :: "string option"
  e_text :: "string option"
  e_sent_at :: "time option"
  e_err :: "string option"
  e_results :: "result list option"

text \<open>The values read from \<open>config.json\<close> (lines 85-94).\<close>

record config =
  SEND_RETRY_COUNT :: int
  SEND_RETRY_DELAY :: time
  INTER_SEND_DELAY :: time
  JITTER :: time
  PER_CHANNEL_COOLDOWN :: time
  REMOVE_ON_FORBIDDEN :: bool
  FORBIDDEN_THRESHOLD :: int

text \<open>
  The state the code reads and writes: the three files, the two module-level
  dictionaries, the clock (\<open>time.time()\<close>, \<open>datetime.now\<close>), the calls the bot object
  has received so far (destination and time of the call) and the number of values drawn
  from \<open>random\<close>. \<open>outbox_history\<close> keeps the contents \<open>outbox.json\<close> had before each
  \<open>save_json(OUTBOX_PATH, ..)\<close>, oldest first; the code never reads it.
\<close>

record world =
  channels_json :: "channel list"
  posts_json :: "post list"
  outbox_json :: "entry list"
  outbox_history :: "entry list list"
  last_sent_times :: "channel \<rightharpoonup> time"
  forbidden_counts :: "channel \<rightharpoonup> int"
  clock :: time
  api_calls :: "(channel \<times> time) list"
  draws :: nat

text \<open>
  What the code does not decide:
  \<^item> \<open>api n ch\<close>: the outcome of the bot's call number \<open>n\<close> (counted from 0) when it is
    addressed to \<open>ch\<close>; \<open>None\<close> when the call returns, \<open>Some e\<close> when it raises \<open>e\<close>;
  \<^item> \<open>uniform n b\<close>: the value of draw number \<open>n\<close> of \<open>random.uniform(0, b)\<close>;
  \<^item> \<open>others w\<close>: the content of \<open>channels.json\<close> after the other coroutines of the
    process (the command handlers) have run while this one was suspended in state \<open>w\<close>;
  \<^item> \<open>requests w\<close>: the \<open>/schedule\<close> commands that \<open>handle_schedule\<close> serves while
    this coroutine is suspended in state \<open>w\<close>, each with the arguments of
    \<open>handle_schedule\<close> below;
  \<^item> \<open>fromisoformat s\<close>: \<open>datetime.fromisoformat(s)\<close> as an instant on the clock,
    \<open>None\<close> when it raises \<open>ValueError\<close>;
  \<^item> \<open>open_rb p\<close>: \<open>open(p, 'rb')\<close>, \<open>None\<close> when the file opens, \<open>Some e\<close> when
    it raises \<open>e\<close>.
\<close>

type_synonym request = "bool \<times> (int \<times> int) option \<times> string option \<times> int"

record env =
  api :: "nat \<Rightarrow> channel \<Rightarrow> exn option"
  uniform :: "nat \<Rightarrow> time \<Rightarrow> time"
  others :: "world \<Rightarrow> channel list"
  requests :: "world \<Rightarrow> request list"
  fromisoformat :: "string \<Rightarrow> time option"
  open_rb :: "string \<Rightarrow> exn option"

section \<open>The files, the schedule handler, suspension points and the bot\<close>

text \<open>\<open>write_log\<close> (lines 190-197) does nothing; its argument is the entry's \<open>type\<close>.\<close>

definition write_log :: "string \<Rightarrow> world \<Rightarrow> world" where
  "write_log entry_type w = w"

text \<open>\<open>save_json(OUTBOX_PATH, data)\<close>.\<close>

definition save_outbox :: "entry list \<Rightarrow> world \<Rightarrow> world" where
  "save_outbox data w =
     w\<lparr>outbox_history := outbox_history w @ [outbox_json w], outbox_json := data\<rparr>"

text \<open>
  \<open>handle_schedule\<close> (lines 649-717). \<open>is_admin\<close> is \<open>user.id in ADMIN_IDS\<close>;
  \<open>reply_to_message\<close> is the chat and message id of the message replied to; \<open>send_at\<close>
  is the ISO text of the parsed time, \<open>None\<close> on the three paths that return early
  (no argument, invalid format, an exception while parsing). The lines 697-707 load the
  outbox, append the new entry and save, outside \<open>file_lock\<close> and without an \<open>await\<close>
  in between. The replies to the user are not modelled.
\<close>

definition handle_schedule ::
  "bool \<Rightarrow> (int \<times> int) option \<Rightarrow> string option \<Rightarrow> int \<Rightarrow> world \<Rightarrow> world"
where
  "handle_schedule is_admin reply_to_message send_at user_id w =
     (if \<not> is_admin then w
      else
        (case reply_to_message of
           None \<Rightarrow> w
         | Some (chat_id, message_id) \<Rightarrow>
             (case send_at of
                None \<Rightarrow> w
              | Some iso_text \<Rightarrow>
                  (let outbox = outbox_json w;
                       entry = \<lparr>e_type = Some ''copy'', e_from_chat_id = Some chat_id,
                                e_message_id = Some message_id, e_send_at = Some iso_text,
                                e_status = Some ''pending'', e_origin_admin = Some user_id,
                                e_file_path = None, e_text = None, e_sent_at = None,
                                e_err = None, e_results = None\<rparr>
                   in write_log ''scheduled'' (save_outbox (outbox @ [entry]) w)))))"

definition handle_request :: "request \<Rightarrow> world \<Rightarrow> world" where
  "handle_request r w =
     (case r of (is_admin, reply_to_message, send_at, user_id) \<Rightarrow>
        handle_schedule is_admin reply_to_message send_at user_id w)"

text \<open>
  A point where the coroutine is suspended and others run: the schedule requests that
  arrive are served one after the other, and \<open>channels.json\<close> is what the others
  leave.
\<close>

definition suspend :: "env \<Rightarrow> world \<Rightarrow> world" where
  "suspend ev w =
     (foldl (\<lambda>w' r. handle_request r w') w (requests ev w))\<lparr>channels_json := others ev w\<rparr>"

text \<open>
  \<open>await asyncio.sleep(d)\<close>: the clock advances by \<open>d\<close>, by nothing when \<open>d\<close> is
  negative. A sleep takes at least \<open>d\<close>; the model takes exactly \<open>d\<close>, and everything
  else takes no time.
\<close>

definition sleep :: "env \<Rightarrow> time \<Rightarrow> world \<Rightarrow> world" where
  "sleep ev d w = suspend ev (w\<lparr>clock := clock w + max 0 d\<rparr>)"

text \<open>
  A call of the bot's API for destination \<open>ch\<close>: the call is logged with its time, its
  outcome comes from the environment.
\<close>

definition bot_call :: "env \<Rightarrow> channel \<Rightarrow> world \<Rightarrow> exn option \<times> world" where
  "bot_call ev ch w =
     (api ev (length (api_calls w)) ch,
      suspend ev (w\<lparr>api_calls := api_calls w @ [(ch, clock w)]\<rparr>))"

definition copy_message :: "env \<Rightarrow> channel \<Rightarrow> world \<Rightarrow> exn option \<times> world" where
  "copy_message = bot_call"

definition send_document :: "env \<Rightarrow> channel \<Rightarrow> world \<Rightarrow> exn option \<times> world" where
  "send_document = bot_call"

definition send_message :: "env \<Rightarrow> channel \<Rightarrow> world \<Rightarrow> exn option \<times> world" where
  "send_message = bot_call"

text \<open>\<open>add_channel\<close> (lines 201-209).\<close>

definition add_channel :: "env \<Rightarrow> channel \<Rightarrow> world \<Rightarrow> bool \<times> world" where
  "add_channel ev chat_identifier w0 =
     (let w = suspend ev w0;
          channels = channels_json w
      in if chat_identifier \<in> set channels then (False, w)
         else (True, write_log ''channel_added''
                 (w\<lparr>channels_json := channels @ [chat_identifier]\<rparr>)))"

text \<open>\<open>remove_channel\<close> (lines 212-220); \<open>list.remove\<close> deletes the first occurrence.\<close>

definition remove_channel :: "env \<Rightarrow> channel \<Rightarrow> world \<Rightarrow> bool \<times> world" where
  "remove_channel ev chat_identifier w0 =
     (let w = suspend ev w0;
          channels = channels_json w
      in if chat_identifier \<notin> set channels then (False, w)
         else (True, write_log ''channel_removed''
                 (w\<lparr>channels_json := remove1 chat_identifier channels\<rparr>)))"

text \<open>\<open>record_post\<close> (lines 227-231).\<close>

definition record_post :: "env \<Rightarrow> post \<Rightarrow> world \<Rightarrow> world" where
  "record_post ev meta w0 =
     (let w = suspend ev w0 in w\<lparr>posts_json := posts_json w @ [meta]\<rparr>)"

section \<open>The broadcast\<close>

definition res :: "channel \<Rightarrow> string \<Rightarrow> result" where
  "res ch st = \<lparr>r_channel = ch, r_status = st, r_err = None\<rparr>"

text \<open>Lines 246-254: the wait before the first attempt to a channel.\<close>

definition cooldown_wait :: "config \<Rightarrow> env \<Rightarrow> channel \<Rightarrow> world \<Rightarrow> world" where
  "cooldown_wait cfg ev ch_id w =
     (let now_ts = clock w in
      case last_sent_times w ch_id of
        None \<Rightarrow> w
      | Some last_ts \<Rightarrow>
          if last_ts \<noteq> 0 then
            (let elapsed = now_ts - last_ts in
             if elapsed < PER_CHANNEL_COOLDOWN cfg
             then sleep ev (PER_CHANNEL_COOLDOWN cfg - elapsed) w
             else w)
          else w)"

text \<open>Line 271: \<open>forbidden_counts[ch_id] = forbidden_counts.get(ch_id, 0) + 1\<close>.\<close>

definition count_forbidden :: "channel \<Rightarrow> world \<Rightarrow> world" where
  "count_forbidden ch_id w =
     w\<lparr>forbidden_counts := (forbidden_counts w)
          (ch_id \<mapsto> (case forbidden_counts w ch_id of None \<Rightarrow> 0 | Some n \<Rightarrow> n) + 1)\<rparr>"

definition forbidden_count :: "world \<Rightarrow> channel \<Rightarrow> int" where
  "forbidden_count w ch_id = (case forbidden_counts w ch_id of None \<Rightarrow> 0 | Some n \<Rightarrow> n)"

text \<open>
  Lines 258-286, the \<open>while attempt < SEND_RETRY_COUNT\<close> loop for one channel. It
  returns \<open>attempt\<close>, \<open>success\<close>, \<open>results\<close> and the state at the loop's exit. A
  \<open>Forbidden\<close> below the threshold (or with removal switched off) falls through to the
  sleep and the next iteration like every other exception.
\<close>

function retry_loop ::
  "config \<Rightarrow> env \<Rightarrow> channel \<Rightarrow> int \<Rightarrow> result list \<Rightarrow> world \<Rightarrow> int \<times> bool \<times> result list \<times> world"
where
  "retry_loop cfg ev ch_id attempt results w =
     (if attempt < SEND_RETRY_COUNT cfg then
        (case copy_message ev ch_id w of
           (None, w1) \<Rightarrow>
             (attempt, True, results @ [res ch_id ''ok''], write_log ''send'' w1)
         | (Some e, w1) \<Rightarrow>
             (if exn_name e = ''Forbidden'' then
                (let w2 = count_forbidden ch_id (write_log ''send'' w1) in
                 if REMOVE_ON_FORBIDDEN cfg \<and> forbidden_count w2 ch_id \<ge> FORBIDDEN_THRESHOLD cfg
                 then (attempt + 1, False, results @ [res ch_id ''forbidden''],
                       snd (remove_channel ev ch_id w2))
                 else retry_loop cfg ev ch_id (attempt + 1) results
                        (sleep ev (SEND_RETRY_DELAY cfg) w2))
              else retry_loop cfg ev ch_id (attempt + 1) results
                     (sleep ev (SEND_RETRY_DELAY cfg) (write_log ''send'' w1))))
      else (attempt, False, results, w))"
  by pat_completeness auto
termination
  by (relation "measure (\<lambda>(cfg, ev, ch_id, attempt, results, w). nat (SEND_RETRY_COUNT cfg - attempt))")
     auto

declare retry_loop.simps [simp del]

text \<open>Lines 245-296, the body of \<open>for ch in channels\<close>.\<close>

definition send_one :: "config \<Rightarrow> env \<Rightarrow> channel \<Rightarrow> result list \<Rightarrow> world \<Rightarrow> result list \<times> world" where
  "send_one cfg ev ch results w =
     (let w1 = cooldown_wait cfg ev ch w;
          (attempt, success, results1, w2) = retry_loop cfg ev ch 0 results w1;
          results2 = (if \<not> success \<and> attempt \<ge> SEND_RETRY_COUNT cfg
                      then results1 @ [res ch ''failed''] else results1);
          w3 = w2\<lparr>last_sent_times := (last_sent_times w2)(ch \<mapsto> clock w2)\<rparr>;
          delay = INTER_SEND_DELAY cfg + uniform ev (draws w3) (JITTER cfg)
      in (results2, sleep ev delay (w3\<lparr>draws := Suc (draws w3)\<rparr>)))"

text \<open>Line 244, \<open>for ch in channels\<close>, over the list loaded at line 235.\<close>

fun send_all :: "config \<Rightarrow> env \<Rightarrow> channel list \<Rightarrow> result list \<Rightarrow> world \<Rightarrow> result list \<times> world" where
  "send_all cfg ev [] results w = (results, w)"
| "send_all cfg ev (ch # channels) results w =
     (case send_one cfg ev ch results w of
        (results1, w1) \<Rightarrow> send_all cfg ev channels results1 w1)"

text \<open>
  \<open>broadcast_copy\<close> (lines 234-305). The first component is the value the call returns:
  \<open>None\<close> is Python's \<open>None\<close>, which both the bare \<open>return\<close> of line 238 and the end
  of the body give. The console output is not modelled.
\<close>

definition broadcast_copy ::
  "config \<Rightarrow> env \<Rightarrow> int \<Rightarrow> int \<Rightarrow> int option \<Rightarrow> world \<Rightarrow> result list option \<times> world"
where
  "broadcast_copy cfg ev from_chat_id message_id origin_admin_id w =
     (let channels = channels_json w in
      if channels = [] then (None, write_log ''broadcast'' w)
      else
        (case send_all cfg ev channels [] w of
           (results, w1) \<Rightarrow>
             (None,
              record_post ev
                \<lparr>p_type = ''broadcast'', p_from_chat_id = from_chat_id,
                 p_message_id = message_id, p_results = results,
                 p_origin_admin = origin_admin_id, p_time = clock w1\<rparr> w1)))"

section \<open>The outbox\<close>

text \<open>
  Line 758: \<open>datetime.fromisoformat(entry.get('send_at')).astimezone(timezone.utc)\<close>.
  A missing key gives \<open>None\<close>, on which \<open>fromisoformat\<close> raises \<open>TypeError\<close>.
\<close>

definition parse_send_at :: "env \<Rightarrow> entry \<Rightarrow> exn + time" where
  "parse_send_at ev e =
     (case e_send_at e of
        None \<Rightarrow> Inl (Exn ''TypeError'' ''fromisoformat: argument must be str'')
      | Some s \<Rightarrow>
          (case fromisoformat ev s of
             None \<Rightarrow> Inl (Exn ''ValueError'' ''Invalid isoformat string'')
           | Some t \<Rightarrow> Inr t))"

text \<open>
  Lines 755-762, the first \<open>for entry in outbox\<close>: the list with the due pending
  entries marked \<open>sending\<close>, and \<open>changed\<close>. An exception leaves the loop at the entry
  that raises it; the list, local to the iteration, is lost with it.
\<close>

fun mark_due :: "env \<Rightarrow> time \<Rightarrow> entry list \<Rightarrow> exn + (entry list \<times> bool)" where
  "mark_due ev now [] = Inr ([], False)"
| "mark_due ev now (e # es) =
     (if e_status e \<noteq> Some ''pending'' then
        (case mark_due ev now es of
           Inl x \<Rightarrow> Inl x
         | Inr (es', changed) \<Rightarrow> Inr (e # es', changed))
      else
        (case parse_send_at ev e of
           Inl x \<Rightarrow> Inl x
         | Inr send_at \<Rightarrow>
             (if send_at \<le> now then
                (case mark_due ev now es of
                   Inl x \<Rightarrow> Inl x
                 | Inr (es', changed) \<Rightarrow> Inr (e\<lparr>e_status := Some ''sending''\<rparr> # es', True))
              else
                (case mark_due ev now es of
                   Inl x \<Rightarrow> Inl x
                 | Inr (es', changed) \<Rightarrow> Inr (e # es', changed)))))"

text \<open>
  Lines 785-796: the direct send of a \<open>file\<close> entry to every channel.
  \<open>entry.get('file_path')\<close> is true for a non-empty path; \<open>open(fp, 'rb')\<close> is
  evaluated before \<open>send_document\<close> is called and may raise.
\<close>

definition send_file :: "env \<Rightarrow> entry \<Rightarrow> channel \<Rightarrow> world \<Rightarrow> exn option \<times> world" where
  "send_file ev e ch w =
     (case e_file_path e of
        None \<Rightarrow> send_message ev ch w
      | Some fp \<Rightarrow>
          if fp = [] then send_message ev ch w
          else (case open_rb ev fp of
                  Some x \<Rightarrow> (Some x, w)
                | None \<Rightarrow> send_document ev ch w))"

fun send_direct :: "env \<Rightarrow> entry \<Rightarrow> channel list \<Rightarrow> result list \<Rightarrow> world \<Rightarrow> result list \<times> world" where
  "send_direct ev e [] results w = (results, w)"
| "send_direct ev e (ch # channels) results w =
     (case send_file ev e ch w of
        (None, w1) \<Rightarrow> send_direct ev e channels (results @ [res ch ''ok'']) w1
      | (Some x, w1) \<Rightarrow>
          send_direct ev e channels
            (results @ [\<lparr>r_channel = ch, r_status = ''error'', r_err = Some (exn_msg x)\<rparr>])
            (write_log ''send'' w1))"

text \<open>
  Lines 768-806, the body of the second \<open>for entry in outbox\<close>: the entry as the
  iteration leaves it, and the state. \<open>entry['from_chat_id']\<close> and
  \<open>entry['message_id']\<close> raise \<open>KeyError\<close> on a missing key, inside the \<open>try\<close>.
\<close>

definition dispatch_entry :: "config \<Rightarrow> env \<Rightarrow> entry \<Rightarrow> world \<Rightarrow> entry \<times> world" where
  "dispatch_entry cfg ev e w =
     (if e_status e \<noteq> Some ''sending'' then (e, w)
      else if e_type e = Some ''copy'' then
        (case e_from_chat_id e of
           None \<Rightarrow> (e\<lparr>e_status := Some ''error'', e_err := Some ''from_chat_id''\<rparr>,
                     write_log ''outbox_error'' w)
         | Some from_chat_id \<Rightarrow>
             (case e_message_id e of
                None \<Rightarrow> (e\<lparr>e_status := Some ''error'', e_err := Some ''message_id''\<rparr>,
                          write_log ''outbox_error'' w)
              | Some message_id \<Rightarrow>
                  (case broadcast_copy cfg ev from_chat_id message_id (e_origin_admin e) w of
                     (r, w1) \<Rightarrow>
                       (e\<lparr>e_status := Some ''sent'', e_sent_at := Some (clock w1)\<rparr>,
                        write_log ''outbox_sent'' w1))))
      else if e_type e = Some ''file'' then
        (case send_direct ev e (channels_json w) [] w of
           (results, w1) \<Rightarrow>
             (e\<lparr>e_status := Some ''sent'', e_results := Some results,
                e_sent_at := Some (clock w1)\<rparr>,
              write_log ''outbox_sent'' w1))
      else (e\<lparr>e_status := Some ''unknown_type''\<rparr>, w))"

text \<open>Line 767, the second \<open>for entry in outbox\<close>.\<close>

fun dispatch :: "config \<Rightarrow> env \<Rightarrow> entry list \<Rightarrow> world \<Rightarrow> entry list \<times> world" where
  "dispatch cfg ev [] w = ([], w)"
| "dispatch cfg ev (e # es) w =
     (case dispatch_entry cfg ev e w of
        (e', w1) \<Rightarrow> (case dispatch cfg ev es w1 of (es', w2) \<Rightarrow> (e' # es', w2)))"

text \<open>
  Lines 750-811, one iteration of \<open>while True\<close> up to the final sleep: the \<open>try\<close>
  block and its handler, which only calls \<open>write_log\<close>.
\<close>

definition outbox_cycle :: "config \<Rightarrow> env \<Rightarrow> world \<Rightarrow> world" where
  "outbox_cycle cfg ev w0 =
     (let w = suspend ev w0;
          outbox = outbox_json w;
          now = clock w
      in case mark_due ev now outbox of
           Inl x \<Rightarrow> write_log ''outbox_loop_error'' w
         | Inr (outbox1, changed) \<Rightarrow>
             (let w1 = (if changed then save_outbox outbox1 w else w)
              in case dispatch cfg ev outbox1 w1 of
                   (outbox2, w2) \<Rightarrow> save_outbox outbox2 (suspend ev w2)))"

text \<open>
  \<open>outbox_loop\<close> (lines 747-812) never returns; \<open>outbox_loop cfg ev n w\<close> is the state
  after its first \<open>n\<close> iterations, each ending with \<open>asyncio.sleep(1)\<close>.
\<close>

fun outbox_loop :: "config \<Rightarrow> env \<Rightarrow> nat \<Rightarrow> world \<Rightarrow> world" where
  "outbox_loop cfg ev 0 w = w"
| "outbox_loop cfg ev (Suc n) w = outbox_loop cfg ev n (sleep ev 1 (outbox_cycle cfg ev w))"

section \<open>Notions used in the statements\<close>

text \<open>
  The condition of line 273 at the moment an attempt to \<open>ch\<close> has raised \<open>e\<close> in state
  \<open>w\<close>: the exception is a \<open>Forbidden\<close>, removal is switched on and the incremented
  counter reaches the threshold.
\<close>

definition ban_now :: "config \<Rightarrow> exn \<Rightarrow> channel \<Rightarrow> world \<Rightarrow> bool" where
  "ban_now cfg e ch w \<longleftrightarrow>
     exn_name e = ''Forbidden'' \<and> REMOVE_ON_FORBIDDEN cfg \<and>
     FORBIDDEN_THRESHOLD cfg \<le> forbidden_count w ch + 1"

text \<open>The state after the handler of an attempt that is retried (lines 266-272).\<close>

definition after_error :: "exn \<Rightarrow> channel \<Rightarrow> world \<Rightarrow> world" where
  "after_error e ch w = (if exn_name e = ''Forbidden'' then count_forbidden ch w else w)"

text \<open>The calls the bot received between the states \<open>w\<close> and \<open>w'\<close>.\<close>

definition new_calls :: "world \<Rightarrow> world \<Rightarrow> (channel \<times> time) list" where
  "new_calls w w' = drop (length (api_calls w)) (api_calls w')"

text \<open>
  The status changes section 4.5 of the specification allows for an outbox entry:
  \<open>pending\<close>, then \<open>sending\<close>, then one of \<open>sent\<close>, \<open>error\<close>, \<open>unknown_type\<close>, with
  steps left out; any other status stays as it is.
\<close>

definition terminal :: "string option \<Rightarrow> bool" where
  "terminal s \<longleftrightarrow> s = Some ''sent'' \<or> s = Some ''error'' \<or> s = Some ''unknown_type''"

definition status_step :: "string option \<Rightarrow> string option \<Rightarrow> bool" where
  "status_step s s' \<longleftrightarrow>
     s' = s \<or>
     (s = Some ''pending'' \<and> (s' = Some ''sending'' \<or> terminal s')) \<or>
     (s = Some ''sending'' \<and> terminal s')"

text \<open>
  An operation on the outbox: a schedule request, or a sweep cycle with the sleep of line
  812. The schedule requests that arrive while a sweep cycle is suspended are those of
  \<open>requests\<close>, served inside \<open>suspend\<close>.
\<close>

datatype operation =
  Schedule bool "(int \<times> int) option" "string option" int
| Sweep

fun perform :: "config \<Rightarrow> env \<Rightarrow> operation \<Rightarrow> world \<Rightarrow> world" where
  "perform cfg ev (Schedule is_admin reply_to_message send_at user_id) w =
     handle_schedule is_admin reply_to_message send_at user_id w"
| "perform cfg ev Sweep w = sleep ev 1 (outbox_cycle cfg ev w)"

fun perform_all :: "config \<Rightarrow> env \<Rightarrow> operation list \<Rightarrow> world \<Rightarrow> world" where
  "perform_all cfg ev [] w = w"
| "perform_all cfg ev (x # xs) w = perform_all cfg ev xs (perform cfg ev x w)"

text \<open>The state in the outcome of \<open>retry_loop\<close>.\<close>

definition final :: "int \<times> bool \<times> result list \<times> world \<Rightarrow> world" where
  "final out = snd (snd (snd out))"

text \<open>Successive times at least \<open>d\<close> apart.\<close>

fun spaced :: "time \<Rightarrow> time list \<Rightarrow> bool" where
  "spaced d [] = True"
| "spaced d [t] = True"
| "spaced d (t # u # ts) = (t + d \<le> u \<and> spaced d (u # ts))"

text \<open>
  \<open>ts\<close> are the times of the attempts the retry loop for \<open>ch\<close> makes between \<open>w\<close> and
  \<open>w'\<close>, when entered with the counter \<open>attempt\<close>.
\<close>

definition attempts_ok :: "config \<Rightarrow> channel \<Rightarrow> int \<Rightarrow> world \<Rightarrow> world \<Rightarrow> time list \<Rightarrow> bool" where
  "attempts_ok cfg ch attempt w w' ts \<longleftrightarrow>
     api_calls w' = api_calls w @ map (Pair ch) ts \<and>
     int (length ts) \<le> max 0 (SEND_RETRY_COUNT cfg - attempt) \<and>
     (attempt < SEND_RETRY_COUNT cfg \<longrightarrow> ts \<noteq> []) \<and>
     (ts \<noteq> [] \<longrightarrow> hd ts = clock w) \<and>
     spaced (max 0 (SEND_RETRY_DELAY cfg)) ts \<and>
     (\<forall>t \<in> set ts. clock w \<le> t \<and> t \<le> clock w') \<and>
     clock w \<le> clock w'"

text \<open>
  The clock is positive, and every call the bot has received was made at a positive time
  not later than the time \<open>last_sent_times\<close> holds for its channel, which is not in the
  future.
\<close>

definition paced :: "world \<Rightarrow> bool" where
  "paced w \<longleftrightarrow>
     0 < clock w \<and>
     (\<forall>(c, t) \<in> set (api_calls w).
        0 < t \<and> (\<exists>l. last_sent_times w c = Some l \<and> t \<le> l \<and> l \<le> clock w))"

text \<open>
  Every call made between \<open>w\<close> and \<open>w'\<close> comes at least the cooldown after every call
  to the same channel made before \<open>w\<close>.
\<close>

definition cooled :: "config \<Rightarrow> world \<Rightarrow> world \<Rightarrow> bool" where
  "cooled cfg w w' \<longleftrightarrow>
     (\<forall>(c, t) \<in> set (api_calls w). \<forall>(c', t') \<in> set (new_calls w w').
        c' = c \<longrightarrow> t + PER_CHANNEL_COOLDOWN cfg \<le> t')"



text \<open>The entry's time can be read and has come.\<close>

definition due :: "env \<Rightarrow> time \<Rightarrow> entry \<Rightarrow> bool" where
  "due ev now e = (case parse_send_at ev e of Inl x \<Rightarrow> False | Inr send_at \<Rightarrow> send_at \<le> now)"

text \<open>What the first loop of a sweep cycle does to an entry when it raises nothing.\<close>

definition promote :: "env \<Rightarrow> time \<Rightarrow> entry \<Rightarrow> entry" where
  "promote ev now e =
     (if e_status e = Some ''pending'' \<and> due ev now e
      then e\<lparr>e_status := Some ''sending''\<rparr> else e)"

text \<open>
  An entry before and after the second loop of a sweep cycle: an entry that is
  \<open>sending\<close> gets a terminal status, every other entry is left as it is.
\<close>

definition dispatched :: "entry \<Rightarrow> entry \<Rightarrow> bool" where
  "dispatched e e' = (if e_status e = Some ''sending'' then terminal (e_status e') else e' = e)"

text \<open>
  An entry before and after a whole sweep cycle at time \<open>now\<close>: it ends in a terminal
  status when it was loaded as \<open>sending\<close>, or as \<open>pending\<close> and due; otherwise it is
  left as it is.
\<close>

definition swept :: "env \<Rightarrow> time \<Rightarrow> entry \<Rightarrow> entry \<Rightarrow> bool" where
  "swept ev now e e' =
     (if e_status e = Some ''sending'' \<or> (e_status e = Some ''pending'' \<and> due ev now e)
      then terminal (e_status e') else e' = e)"

text \<open>
  The contents \<open>outbox.json\<close> has had up to the state \<open>w\<close>, oldest first, the present
  one last.
\<close>

definition versions :: "world \<Rightarrow> entry list list" where
  "versions w = outbox_history w @ [outbox_json w]"

definition pending :: "entry \<Rightarrow> bool" where
  "pending e \<longleftrightarrow> e_status e = Some ''pending''"

text \<open>A save that appends one pending entry, as a schedule request does.\<close>

definition pending_append :: "entry list \<Rightarrow> entry list \<Rightarrow> bool" where
  "pending_append old new \<longleftrightarrow>
     length new = Suc (length old) \<and> butlast new = old \<and> pending (last new)"

text \<open>
  One save of \<open>outbox.json\<close> as the status order allows it: at every position that both
  contents have, the status has moved by \<open>status_step\<close>; the entries that the save
  drops, and those it adds, are pending.
\<close>

definition version_step :: "entry list \<Rightarrow> entry list \<Rightarrow> bool" where
  "version_step old new \<longleftrightarrow>
     list_all2 status_step
       (map e_status (take (min (length old) (length new)) old))
       (map e_status (take (min (length old) (length new)) new)) \<and>
     list_all pending (drop (min (length old) (length new)) old) \<and>
     list_all pending (drop (min (length old) (length new)) new)"

text \<open>
  The saves between the states \<open>w\<close> and \<open>w'\<close>: the contents of \<open>w\<close> are still the
  first contents of \<open>w'\<close>, and from the present contents of \<open>w\<close> on, each is related
  to the next by \<open>step\<close>.
\<close>

definition history_from :: "(entry list \<Rightarrow> entry list \<Rightarrow> bool) \<Rightarrow> world \<Rightarrow> world \<Rightarrow> bool" where
  "history_from step w w' \<longleftrightarrow>
     prefix (versions w) (versions w') \<and>
     successively step (outbox_json w # drop (length (versions w)) (versions w'))"

definition grown :: "world \<Rightarrow> world \<Rightarrow> bool" where
  "grown = history_from pending_append"

definition follows :: "world \<Rightarrow> world \<Rightarrow> bool" where
  "follows = history_from version_step"

text \<open>The calls the bot has received and the ledger in \<open>w\<close> are still there in \<open>w'\<close>.\<close>

definition extends :: "world \<Rightarrow> world \<Rightarrow> bool" where
  "extends w w' \<longleftrightarrow>
     prefix (api_calls w) (api_calls w') \<and> prefix (posts_json w) (posts_json w')"

text \<open>The state in which the second loop of a sweep cycle starts (lines 763-764).\<close>

definition after_first_loop :: "env \<Rightarrow> entry list \<Rightarrow> bool \<Rightarrow> world \<Rightarrow> world" where
  "after_first_loop ev outbox1 changed w =
     (if changed then save_outbox outbox1 (suspend ev w) else suspend ev w)"

text \<open>The state in which the second loop reaches the entry at position \<open>i\<close>.\<close>

definition reached :: "config \<Rightarrow> env \<Rightarrow> entry list \<Rightarrow> bool \<Rightarrow> nat \<Rightarrow> world \<Rightarrow> world" where
  "reached cfg ev outbox1 changed i w =
     snd (dispatch cfg ev (take i outbox1) (after_first_loop ev outbox1 changed w))"

section \<open>Concrete inputs\<close>

text \<open>The defaults of lines 85-94.\<close>

definition default_config :: config where
  "default_config =
     \<lparr>SEND_RETRY_COUNT = 3, SEND_RETRY_DELAY = 2, INTER_SEND_DELAY = 35 / 100,
      JITTER = 15 / 100, PER_CHANNEL_COOLDOWN = 10, REMOVE_ON_FORBIDDEN = True,
      FORBIDDEN_THRESHOLD = 3\<rparr>"

text \<open>A parser that knows two instants.\<close>

definition two_instants :: "string \<Rightarrow> time option" where
  "two_instants s =
     (if s = ''2024-01-01T00:00:00+00:00'' then Some 0
      else if s = ''2999-01-01T00:00:00+00:00'' then Some 32503680000
      else None)"

text \<open>
  An environment with the given bot, no jitter, no other coroutine touching
  \<open>channels.json\<close>, no schedule request and files that open.
\<close>

definition alone :: "(nat \<Rightarrow> channel \<Rightarrow> exn option) \<Rightarrow> env" where
  "alone script =
     \<lparr>api = script, uniform = (\<lambda>n b. 0), others = channels_json, requests = (\<lambda>w. []),
      fromisoformat = two_instants, open_rb = (\<lambda>p. None)\<rparr>"

text \<open>A process that has just started, at time 1000, with the given registry and outbox.\<close>

definition fresh :: "channel list \<Rightarrow> entry list \<Rightarrow> world" where
  "fresh channels outbox =
     \<lparr>channels_json = channels, posts_json = [], outbox_json = outbox,
      outbox_history = [], last_sent_times = Map.empty, forbidden_counts = Map.empty, clock = 1000,
      api_calls = [], draws = 0\<rparr>"

definition always_ok :: "nat \<Rightarrow> channel \<Rightarrow> exn option" where
  "always_ok n ch = None"

definition always_forbidden :: "nat \<Rightarrow> channel \<Rightarrow> exn option" where
  "always_forbidden n ch = Some (Exn ''Forbidden'' ''bot was kicked from the channel'')"

definition forbidden_then_ok :: "nat \<Rightarrow> channel \<Rightarrow> exn option" where
  "forbidden_then_ok n ch =
     (if n = 0 then Some (Exn ''Forbidden'' ''bot was kicked from the channel'') else None)"

definition timeout_then_ok :: "nat \<Rightarrow> channel \<Rightarrow> exn option" where
  "timeout_then_ok n ch = (if n = 0 then Some (Exn ''TimedOut'' ''Timed out'') else None)"

text \<open>An outbox entry as \<open>handle_schedule\<close> writes it, with the given status and time.\<close>

definition copy_entry :: "string \<Rightarrow> string \<Rightarrow> entry" where
  "copy_entry status send_at =
     \<lparr>e_type = Some ''copy'', e_from_chat_id = Some 7, e_message_id = Some 42,
      e_send_at = Some send_at, e_status = Some status, e_origin_admin = Some 1,
      e_file_path = None, e_text = None, e_sent_at = None, e_err = None,
      e_results = None\<rparr>"


text \<open>A process in which two rejections of channel \<open>A\<close> have been counted already.\<close>

definition two_strikes :: world where
  "two_strikes = (fresh [''A''] [])\<lparr>forbidden_counts := [''A'' \<mapsto> 2]\<rparr>"

text \<open>
  An environment like \<open>alone\<close>, but with a schedule request served at every suspension
  as long as the outbox has fewer than three entries.
\<close>

definition busy :: "(nat \<Rightarrow> channel \<Rightarrow> exn option) \<Rightarrow> env" where
  "busy script =
     \<lparr>api = script, uniform = (\<lambda>n b. 0), others = channels_json,
      requests = (\<lambda>w. if length (outbox_json w) < 3
                        then [(True, Some (7, 42), Some ''2999-01-01T00:00:00+00:00'', 1)]
                        else []),
      fromisoformat = two_instants, open_rb = (\<lambda>p. None)\<rparr>"


text \<open>An outbox entry of kind \<open>file\<close> with the given status and path, due since 2024.\<close>

definition file_entry :: "string \<Rightarrow> string \<Rightarrow> entry" where
  "file_entry status path =
     \<lparr>e_type = Some ''file'', e_from_chat_id = None, e_message_id = None,
      e_send_at = Some ''2024-01-01T00:00:00+00:00'', e_status = Some status,
      e_origin_admin = None, e_file_path = Some path, e_text = Some ''hello'',
      e_sent_at = None, e_err = None, e_results = None\<rparr>"

text \<open>An environment like \<open>alone\<close>, but in which no file opens.\<close>

definition unreadable :: "(nat \<Rightarrow> channel \<Rightarrow> exn option) \<Rightarrow> env" where
  "unreadable script =
     \<lparr>api = script, uniform = (\<lambda>n b. 0), others = channels_json, requests = (\<lambda>w. []),
      fromisoformat = two_instants,
      open_rb = (\<lambda>p. Some (Exn ''FileNotFoundError'' ''[Errno 2] No such file or directory''))\<rparr>"

text \<open>An outbox whose first entry has a time that \<open>fromisoformat\<close> rejects.\<close>

definition stuck_outbox :: "entry list" where
  "stuck_outbox =
     [copy_entry ''pending'' ''tomorrow'',
      copy_entry ''pending'' ''2024-01-01T00:00:00+00:00'']"

section \<open>Properties\<close>

subsection \<open>What each step leaves unchanged\<close>

lemma write_log_id [simp]: "write_log s w = w"
  by (simp add: write_log_def)

lemma handle_request_fields [simp]:
  "channels_json (handle_request r w) = channels_json w"
  "posts_json (handle_request r w) = posts_json w"
  "last_sent_times (handle_request r w) = last_sent_times w"
  "forbidden_counts (handle_request r w) = forbidden_counts w"
  "clock (handle_request r w) = clock w"
  "api_calls (handle_request r w) = api_calls w"
  "draws (handle_request r w) = draws w"
  by (simp_all add: handle_request_def handle_schedule_def save_outbox_def Let_def
      split: prod.splits option.splits)

lemma served_fields [simp]:
  "posts_json (foldl (\<lambda>w' r. handle_request r w') w rs) = posts_json w"
  "last_sent_times (foldl (\<lambda>w' r. handle_request r w') w rs) = last_sent_times w"
  "forbidden_counts (foldl (\<lambda>w' r. handle_request r w') w rs) = forbidden_counts w"
  "clock (foldl (\<lambda>w' r. handle_request r w') w rs) = clock w"
  "api_calls (foldl (\<lambda>w' r. handle_request r w') w rs) = api_calls w"
  "draws (foldl (\<lambda>w' r. handle_request r w') w rs) = draws w"
  by (induction rs arbitrary: w) simp_all

lemma suspend_fields [simp]:
  "posts_json (suspend ev w) = posts_json w"
  "channels_json (suspend ev w) = others ev w"
  "last_sent_times (suspend ev w) = last_sent_times w"
  "forbidden_counts (suspend ev w) = forbidden_counts w"
  "clock (suspend ev w) = clock w"
  "api_calls (suspend ev w) = api_calls w"
  "draws (suspend ev w) = draws w"
  by (simp_all add: suspend_def)

lemma sleep_fields [simp]:
  "posts_json (sleep ev d w) = posts_json w"
  "channels_json (sleep ev d w) = others ev (w\<lparr>clock := clock w + max 0 d\<rparr>)"
  "last_sent_times (sleep ev d w) = last_sent_times w"
  "forbidden_counts (sleep ev d w) = forbidden_counts w"
  "clock (sleep ev d w) = clock w + max 0 d"
  "api_calls (sleep ev d w) = api_calls w"
  "draws (sleep ev d w) = draws w"
  by (simp_all add: sleep_def)

lemma bot_call_fields:
  assumes "bot_call ev ch w = (r, w1)"
  shows "posts_json w1 = posts_json w"
    and "channels_json w1 = others ev (w\<lparr>api_calls := api_calls w @ [(ch, clock w)]\<rparr>)"
    and "last_sent_times w1 = last_sent_times w"
    and "forbidden_counts w1 = forbidden_counts w"
    and "clock w1 = clock w" and "api_calls w1 = api_calls w @ [(ch, clock w)]"
    and "draws w1 = draws w" and "r = api ev (length (api_calls w)) ch"
    and "forbidden_count w1 = forbidden_count w"
  using assms by (auto simp: bot_call_def forbidden_count_def fun_eq_iff)

lemmas copy_message_fields = bot_call_fields [folded copy_message_def]

lemma count_forbidden_fields [simp]:
  "posts_json (count_forbidden ch w) = posts_json w"
  "outbox_json (count_forbidden ch w) = outbox_json w"
  "last_sent_times (count_forbidden ch w) = last_sent_times w"
  "clock (count_forbidden ch w) = clock w"
  "api_calls (count_forbidden ch w) = api_calls w"
  "draws (count_forbidden ch w) = draws w"
  "channels_json (count_forbidden ch w) = channels_json w"
  by (simp_all add: count_forbidden_def)

lemma forbidden_count_count_forbidden [simp]:
  "forbidden_count (count_forbidden ch w) c =
     (if c = ch then forbidden_count w ch + 1 else forbidden_count w c)"
  by (simp add: count_forbidden_def forbidden_count_def)

lemma forbidden_count_frame [simp]:
  "forbidden_count (suspend ev w) = forbidden_count w"
  "forbidden_count (sleep ev d w) = forbidden_count w"
  by (simp_all add: forbidden_count_def fun_eq_iff)

lemma remove_channel_fields [simp]:
  "posts_json (snd (remove_channel ev ch w)) = posts_json w"
  "last_sent_times (snd (remove_channel ev ch w)) = last_sent_times w"
  "forbidden_counts (snd (remove_channel ev ch w)) = forbidden_counts w"
  "clock (snd (remove_channel ev ch w)) = clock w"
  "api_calls (snd (remove_channel ev ch w)) = api_calls w"
  "draws (snd (remove_channel ev ch w)) = draws w"
  by (simp_all add: remove_channel_def Let_def)

lemma forbidden_count_remove_channel [simp]:
  "forbidden_count (snd (remove_channel ev ch w)) = forbidden_count w"
  by (simp add: forbidden_count_def fun_eq_iff)

lemma after_error_fields [simp]:
  "posts_json (after_error e ch w) = posts_json w"
  "outbox_json (after_error e ch w) = outbox_json w"
  "last_sent_times (after_error e ch w) = last_sent_times w"
  "clock (after_error e ch w) = clock w"
  "api_calls (after_error e ch w) = api_calls w"
  "draws (after_error e ch w) = draws w"
  by (simp_all add: after_error_def)

subsection \<open>The retry loop, case by case\<close>

lemma retry_loop_stop:
  "\<not> attempt < SEND_RETRY_COUNT cfg \<Longrightarrow>
   retry_loop cfg ev ch attempt results w = (attempt, False, results, w)"
  by (simp add: retry_loop.simps)

lemma retry_loop_ok:
  "attempt < SEND_RETRY_COUNT cfg \<Longrightarrow> copy_message ev ch w = (None, w1) \<Longrightarrow>
   retry_loop cfg ev ch attempt results w = (attempt, True, results @ [res ch ''ok''], w1)"
  by (simp add: retry_loop.simps)

lemma retry_loop_ban:
  "attempt < SEND_RETRY_COUNT cfg \<Longrightarrow> copy_message ev ch w = (Some e, w1) \<Longrightarrow>
   ban_now cfg e ch w \<Longrightarrow>
   retry_loop cfg ev ch attempt results w =
     (attempt + 1, False, results @ [res ch ''forbidden''],
      snd (remove_channel ev ch (count_forbidden ch w1)))"
  by (subst retry_loop.simps)
     (simp add: ban_now_def Let_def copy_message_fields(9))

lemma retry_loop_retry:
  "attempt < SEND_RETRY_COUNT cfg \<Longrightarrow> copy_message ev ch w = (Some e, w1) \<Longrightarrow>
   \<not> ban_now cfg e ch w \<Longrightarrow>
   retry_loop cfg ev ch attempt results w =
     retry_loop cfg ev ch (attempt + 1) results
       (sleep ev (SEND_RETRY_DELAY cfg) (after_error e ch w1))"
  by (subst retry_loop.simps)
     (auto simp add: ban_now_def after_error_def Let_def copy_message_fields(9))

text \<open>
  A proof rule for the loop: a property of its start and its outcome holds when it holds
  at each of the three exits and is carried back over an iteration that is retried.
\<close>

lemma retry_loop_rule:
  assumes stop: "\<And>attempt w. \<not> attempt < SEND_RETRY_COUNT cfg \<Longrightarrow>
            P attempt w (attempt, False, results, w)"
    and ok: "\<And>attempt w w1. attempt < SEND_RETRY_COUNT cfg \<Longrightarrow>
            copy_message ev ch w = (None, w1) \<Longrightarrow>
            P attempt w (attempt, True, results @ [res ch ''ok''], w1)"
    and ban: "\<And>attempt w e w1. attempt < SEND_RETRY_COUNT cfg \<Longrightarrow>
            copy_message ev ch w = (Some e, w1) \<Longrightarrow> ban_now cfg e ch w \<Longrightarrow>
            P attempt w (attempt + 1, False, results @ [res ch ''forbidden''],
                         snd (remove_channel ev ch (count_forbidden ch w1)))"
    and retry: "\<And>attempt w e w1 out. attempt < SEND_RETRY_COUNT cfg \<Longrightarrow>
            copy_message ev ch w = (Some e, w1) \<Longrightarrow> \<not> ban_now cfg e ch w \<Longrightarrow>
            P (attempt + 1) (sleep ev (SEND_RETRY_DELAY cfg) (after_error e ch w1)) out \<Longrightarrow>
            P attempt w out"
  shows "P attempt w (retry_loop cfg ev ch attempt results w)"
proof (induction "nat (SEND_RETRY_COUNT cfg - attempt)" arbitrary: attempt w)
  case 0
  then have "\<not> attempt < SEND_RETRY_COUNT cfg" by simp
  then show ?case by (simp add: retry_loop_stop stop)
next
  case (Suc n)
  then have lt: "attempt < SEND_RETRY_COUNT cfg" by simp
  obtain r w1 where cm: "copy_message ev ch w = (r, w1)"
    by (cases "copy_message ev ch w")
  show ?case
  proof (cases r)
    case None
    with lt cm show ?thesis by (simp add: retry_loop_ok ok)
  next
    case (Some e)
    show ?thesis
    proof (cases "ban_now cfg e ch w")
      case True
      with lt cm Some show ?thesis by (simp add: retry_loop_ban ban)
    next
      case False
      let ?w2 = "sleep ev (SEND_RETRY_DELAY cfg) (after_error e ch w1)"
      have "n = nat (SEND_RETRY_COUNT cfg - (attempt + 1))"
        using Suc.hyps(2) by simp
      then have "P (attempt + 1) ?w2 (retry_loop cfg ev ch (attempt + 1) results ?w2)"
        by (rule Suc.hyps(1))
      then have "P attempt w (retry_loop cfg ev ch (attempt + 1) results ?w2)"
        using lt cm Some False by (auto intro: retry)
      then show ?thesis
        using lt cm Some False by (simp add: retry_loop_retry)
    qed
  qed
qed

lemma retry_loop_frame':
  "case retry_loop cfg ev ch attempt results w of (a', s', r', w') \<Rightarrow>
     posts_json w' = posts_json w \<and>
     last_sent_times w' = last_sent_times w \<and> draws w' = draws w"
  by (rule retry_loop_rule) (auto simp: copy_message_fields)

lemma retry_loop_frame:
  assumes "retry_loop cfg ev ch attempt results w = (a', s', r', w')"
  shows "posts_json w' = posts_json w"
    and "last_sent_times w' = last_sent_times w" and "draws w' = draws w"
  using retry_loop_frame' [where cfg = cfg and ev = ev and ch = ch and attempt = attempt
      and results = results and w = w] assms
  by simp_all

lemma cooldown_wait_fields [simp]:
  "posts_json (cooldown_wait cfg ev ch w) = posts_json w"
  "last_sent_times (cooldown_wait cfg ev ch w) = last_sent_times w"
  "forbidden_counts (cooldown_wait cfg ev ch w) = forbidden_counts w"
  "api_calls (cooldown_wait cfg ev ch w) = api_calls w"
  "draws (cooldown_wait cfg ev ch w) = draws w"
  by (simp_all add: cooldown_wait_def Let_def split: option.split)

lemma send_one_frame:
  "posts_json (snd (send_one cfg ev ch results w)) = posts_json w"
  by (auto simp: send_one_def Let_def retry_loop_frame split: prod.splits)

lemma send_all_frame:
  "posts_json (snd (send_all cfg ev channels results w)) = posts_json w"
proof (induction channels arbitrary: results w)
  case Nil
  show ?case by simp
next
  case (Cons ch channels)
  obtain r1 w1 where s: "send_one cfg ev ch results w = (r1, w1)"
    by (cases "send_one cfg ev ch results w")
  with send_one_frame [of cfg ev ch results w] Cons.IH [of r1 w1] show ?case
    by simp
qed

subsection \<open>The attempts of the retry loop\<close>

lemma final_simp [simp]: "final (a, s, r, w) = w"
  by (simp add: final_def)

lemma spaced_Cons:
  "spaced d (t # ts) \<longleftrightarrow> ts = [] \<or> (t + d \<le> hd ts \<and> spaced d ts)"
  by (cases ts) simp_all

lemma retry_loop_calls':
  "\<exists>ts. attempts_ok cfg ch attempt w (final (retry_loop cfg ev ch attempt results w)) ts"
proof (rule retry_loop_rule
    [where P = "\<lambda>attempt w out. \<exists>ts. attempts_ok cfg ch attempt w (final out) ts"])
  fix attempt w
  assume "\<not> attempt < SEND_RETRY_COUNT cfg"
  then have "attempts_ok cfg ch attempt w w []"
    by (simp add: attempts_ok_def)
  then show "\<exists>ts. attempts_ok cfg ch attempt w (final (attempt, False, results, w)) ts"
    by auto
next
  fix attempt w w1
  assume lt: "attempt < SEND_RETRY_COUNT cfg" and cm: "copy_message ev ch w = (None, w1)"
  have "attempts_ok cfg ch attempt w w1 [clock w]"
    using lt by (simp add: attempts_ok_def copy_message_fields [OF cm])
  then show "\<exists>ts. attempts_ok cfg ch attempt w
                    (final (attempt, True, results @ [res ch ''ok''], w1)) ts"
    by auto
next
  fix attempt w e w1
  assume lt: "attempt < SEND_RETRY_COUNT cfg" and cm: "copy_message ev ch w = (Some e, w1)"
  have "attempts_ok cfg ch attempt w (snd (remove_channel ev ch (count_forbidden ch w1)))
          [clock w]"
    using lt by (simp add: attempts_ok_def copy_message_fields [OF cm])
  then show "\<exists>ts. attempts_ok cfg ch attempt w
                    (final (attempt + 1, False, results @ [res ch ''forbidden''],
                            snd (remove_channel ev ch (count_forbidden ch w1)))) ts"
    by auto
next
  fix attempt w e w1 and out :: "int \<times> bool \<times> result list \<times> world"
  assume lt: "attempt < SEND_RETRY_COUNT cfg" and cm: "copy_message ev ch w = (Some e, w1)"
    and ih: "\<exists>ts. attempts_ok cfg ch (attempt + 1)
                    (sleep ev (SEND_RETRY_DELAY cfg) (after_error e ch w1)) (final out) ts"
  from ih obtain ts where
    ts: "attempts_ok cfg ch (attempt + 1)
           (sleep ev (SEND_RETRY_DELAY cfg) (after_error e ch w1)) (final out) ts"
    by auto
  have "attempts_ok cfg ch attempt w (final out) (clock w # ts)"
    using ts lt
    by (auto simp: attempts_ok_def copy_message_fields [OF cm] spaced_Cons)
  then show "\<exists>ts. attempts_ok cfg ch attempt w (final out) ts"
    by auto
qed

lemma retry_loop_calls:
  assumes "retry_loop cfg ev ch attempt results w = (a', s', r', w')"
  obtains ts where "attempts_ok cfg ch attempt w w' ts"
  using retry_loop_calls' [where cfg = cfg and ev = ev and ch = ch and attempt = attempt
      and results = results and w = w] assms
  by auto

lemma channels_json_remove_channel:
  "channels_json (snd (remove_channel ev ch w)) = remove1 ch (others ev w)"
  by (simp add: remove_channel_def Let_def remove1_idem)

subsection \<open>The counters\<close>

lemma forbidden_count_after_error:
  "forbidden_count (after_error e ch w) c =
     (if exn_name e = ''Forbidden'' \<and> c = ch then forbidden_count w c + 1
      else forbidden_count w c)"
  by (simp add: after_error_def)

lemma retry_loop_count_mono':
  "forbidden_count w c \<le> forbidden_count (final (retry_loop cfg ev ch attempt results w)) c"
proof (rule retry_loop_rule
    [where P = "\<lambda>attempt w out. forbidden_count w c \<le> forbidden_count (final out) c"])
  fix attempt w e w1 and out :: "int \<times> bool \<times> result list \<times> world"
  assume cm: "copy_message ev ch w = (Some e, w1)"
    and ih: "forbidden_count (sleep ev (SEND_RETRY_DELAY cfg) (after_error e ch w1)) c
               \<le> forbidden_count (final out) c"
  show "forbidden_count w c \<le> forbidden_count (final out) c"
    using ih
    by (simp add: forbidden_count_after_error copy_message_fields(9) [OF cm] split: if_splits)
qed (simp_all add: copy_message_fields(9))

lemma retry_loop_all_ok':
  assumes "\<forall>n c. api ev n c = None"
  shows "forbidden_counts (final (retry_loop cfg ev ch attempt results w)) = forbidden_counts w"
proof (rule retry_loop_rule
    [where P = "\<lambda>attempt w out. forbidden_counts (final out) = forbidden_counts w"])
  fix attempt w e w1
  assume cm: "copy_message ev ch w = (Some e, w1)"
  then have False using assms copy_message_fields(8) [OF cm] by simp
  then show "forbidden_counts
               (final (attempt + 1, False, results @ [res ch ''forbidden''],
                       snd (remove_channel ev ch (count_forbidden ch w1)))) =
             forbidden_counts w" ..
next
  fix attempt w e w1 and out :: "int \<times> bool \<times> result list \<times> world"
  assume cm: "copy_message ev ch w = (Some e, w1)"
  then have False using assms copy_message_fields(8) [OF cm] by simp
  then show "forbidden_counts (final out) = forbidden_counts w" ..
qed (simp_all add: copy_message_fields(4))

lemma send_one_counts:
  "forbidden_count w c \<le> forbidden_count (snd (send_one cfg ev ch results w)) c"
  "(\<forall>n c. api ev n c = None) \<Longrightarrow>
     forbidden_counts (snd (send_one cfg ev ch results w)) = forbidden_counts w"
proof -
  let ?w1 = "cooldown_wait cfg ev ch w"
  obtain a s r w2 where rl: "retry_loop cfg ev ch 0 results ?w1 = (a, s, r, w2)"
    by (cases "retry_loop cfg ev ch 0 results ?w1") auto
  have fc: "forbidden_counts (snd (send_one cfg ev ch results w)) = forbidden_counts w2"
    using rl by (simp add: send_one_def Let_def)
  have "forbidden_count ?w1 c \<le> forbidden_count w2 c"
    using retry_loop_count_mono' [of ?w1 c cfg ev ch 0 results] rl by simp
  then show "forbidden_count w c \<le> forbidden_count (snd (send_one cfg ev ch results w)) c"
    using fc by (simp add: forbidden_count_def)
  show "forbidden_counts (snd (send_one cfg ev ch results w)) = forbidden_counts w"
    if "\<forall>n c. api ev n c = None"
    using retry_loop_all_ok' [OF that, of cfg ch 0 results ?w1] rl fc by simp
qed

lemma send_all_Cons:
  "send_one cfg ev ch results w = (r1, w1) \<Longrightarrow>
   send_all cfg ev (ch # channels) results w = send_all cfg ev channels r1 w1"
  by simp

lemma send_all_count_mono:
  "forbidden_count w c \<le> forbidden_count (snd (send_all cfg ev channels results w)) c"
proof (induction channels arbitrary: results w)
  case Nil
  show ?case by simp
next
  case (Cons ch channels)
  obtain r1 w1 where s: "send_one cfg ev ch results w = (r1, w1)"
    by (cases "send_one cfg ev ch results w")
  have "forbidden_count w c \<le> forbidden_count w1 c"
    using send_one_counts(1) [of w c cfg ev ch results] s by simp
  also have "\<dots> \<le> forbidden_count (snd (send_all cfg ev channels r1 w1)) c"
    by (rule Cons.IH)
  finally show ?case
    by (simp only: send_all_Cons [OF s])
qed

lemma send_all_all_ok:
  assumes "\<forall>n c. api ev n c = None"
  shows "forbidden_counts (snd (send_all cfg ev channels results w)) = forbidden_counts w"
proof (induction channels arbitrary: results w)
  case Nil
  show ?case by simp
next
  case (Cons ch channels)
  obtain r1 w1 where s: "send_one cfg ev ch results w = (r1, w1)"
    by (cases "send_one cfg ev ch results w")
  have "forbidden_counts w1 = forbidden_counts w"
    using send_one_counts(2) [OF assms, of cfg ch results w] s by simp
  with Cons.IH [of r1 w1] show ?case
    by (simp only: send_all_Cons [OF s])
qed

subsection \<open>The calls of one pass over the channels\<close>

lemma send_one_unfold:
  assumes "retry_loop cfg ev ch 0 results (cooldown_wait cfg ev ch w) = (a, s, r, w2)"
  shows "snd (send_one cfg ev ch results w) =
           sleep ev (INTER_SEND_DELAY cfg + uniform ev (draws w2) (JITTER cfg))
             (w2\<lparr>last_sent_times := (last_sent_times w2)(ch \<mapsto> clock w2),
                 draws := Suc (draws w2)\<rparr>)"
  using assms by (simp add: send_one_def Let_def)

lemma send_one_calls:
  "\<exists>ts. api_calls (snd (send_one cfg ev ch results w)) = api_calls w @ map (Pair ch) ts \<and>
        int (length ts) \<le> max 0 (SEND_RETRY_COUNT cfg) \<and>
        (0 < SEND_RETRY_COUNT cfg \<longrightarrow> ts \<noteq> [])"
proof -
  let ?w1 = "cooldown_wait cfg ev ch w"
  obtain a s r w2 where rl: "retry_loop cfg ev ch 0 results ?w1 = (a, s, r, w2)"
    by (cases "retry_loop cfg ev ch 0 results ?w1") auto
  obtain ts where "attempts_ok cfg ch 0 ?w1 w2 ts"
    using rl by (rule retry_loop_calls)
  then show ?thesis
    by (auto simp: attempts_ok_def send_one_unfold [OF rl] intro!: exI [of _ ts])
qed


subsection \<open>The cooldown between passes\<close>

lemma cooldown_wait_clock:
  "clock w \<le> clock (cooldown_wait cfg ev ch w)"
  "last_sent_times w ch = Some l \<Longrightarrow> l \<noteq> 0 \<Longrightarrow>
     l + PER_CHANNEL_COOLDOWN cfg \<le> clock (cooldown_wait cfg ev ch w)"
  by (auto simp: cooldown_wait_def Let_def split: option.splits)

lemma new_calls_append:
  "api_calls w' = api_calls w @ xs \<Longrightarrow> new_calls w w' = xs"
  by (simp add: new_calls_def)

lemma send_one_paced:
  assumes "paced w"
  shows "paced (snd (send_one cfg ev ch results w)) \<and>
         cooled cfg w (snd (send_one cfg ev ch results w)) \<and>
         (\<exists>xs. api_calls (snd (send_one cfg ev ch results w)) = api_calls w @ xs)"
proof -
  let ?w1 = "cooldown_wait cfg ev ch w"
  let ?w' = "snd (send_one cfg ev ch results w)"
  obtain a s r w2 where rl: "retry_loop cfg ev ch 0 results ?w1 = (a, s, r, w2)"
    by (cases "retry_loop cfg ev ch 0 results ?w1") auto
  obtain ts where ts: "attempts_ok cfg ch 0 ?w1 w2 ts"
    using rl by (rule retry_loop_calls)
  note u = send_one_unfold [OF rl]
  note fr = retry_loop_frame [OF rl]
  have calls: "api_calls ?w' = api_calls w @ map (Pair ch) ts"
    using ts by (simp add: u attempts_ok_def)
  have lst: "last_sent_times ?w' = (last_sent_times w)(ch \<mapsto> clock w2)"
    by (simp add: u fr)
  have c1: "clock w \<le> clock ?w1" by (rule cooldown_wait_clock)
  have c2: "clock ?w1 \<le> clock w2" using ts by (simp add: attempts_ok_def)
  have c3: "clock w2 \<le> clock ?w'" by (simp add: u)
  have tsb: "\<forall>t \<in> set ts. clock ?w1 \<le> t \<and> t \<le> clock w2"
    using ts by (simp add: attempts_ok_def)
  have pos: "0 < clock w" using assms by (simp add: paced_def)
  have old: "\<forall>(c, t) \<in> set (api_calls w).
               0 < t \<and> (\<exists>l. last_sent_times w c = Some l \<and> t \<le> l \<and> l \<le> clock w)"
    using assms by (simp add: paced_def)
  have "paced ?w'"
    unfolding paced_def
  proof (intro conjI ballI)
    show "0 < clock ?w'" using pos c1 c2 c3 by linarith
  next
    fix x assume x: "x \<in> set (api_calls ?w')"
    obtain c t where ct: "x = (c, t)" by (cases x)
    from x ct calls consider "(c, t) \<in> set (api_calls w)" | "c = ch" "t \<in> set ts"
      by auto
    then have "0 < t \<and> (\<exists>l. last_sent_times ?w' c = Some l \<and> t \<le> l \<and> l \<le> clock ?w')"
    proof cases
      case 1
      with old obtain l where l: "0 < t" "last_sent_times w c = Some l" "t \<le> l" "l \<le> clock w"
        by auto
      show ?thesis
      proof (cases "c = ch")
        case True
        with l lst c1 c2 c3 show ?thesis by simp
      next
        case False
        with l lst c1 c2 c3 show ?thesis by simp
      qed
    next
      case 2
      with tsb have "clock ?w1 \<le> t" "t \<le> clock w2" by auto
      with 2 lst pos c1 c3 show ?thesis by simp
    qed
    with ct show "case x of (c, t) \<Rightarrow>
        0 < t \<and> (\<exists>l. last_sent_times ?w' c = Some l \<and> t \<le> l \<and> l \<le> clock ?w')"
      by simp
  qed
  moreover have "cooled cfg w ?w'"
  proof -
    have "t + PER_CHANNEL_COOLDOWN cfg \<le> t'"
      if "(ch, t) \<in> set (api_calls w)" and "t' \<in> set ts" for t t'
    proof -
      from old that(1) obtain l where
        l: "0 < t" "last_sent_times w ch = Some l" "t \<le> l"
        by auto
      then have "l \<noteq> 0" by simp
      with l have "l + PER_CHANNEL_COOLDOWN cfg \<le> clock ?w1"
        by (simp add: cooldown_wait_clock)
      moreover have "clock ?w1 \<le> t'" using tsb that(2) by simp
      ultimately show ?thesis using l by simp
    qed
    then show ?thesis
      unfolding cooled_def new_calls_append [OF calls] by auto
  qed
  ultimately show ?thesis using calls by blast
qed

lemma cooled_trans:
  assumes "api_calls w1 = api_calls w @ xs" and "api_calls w2 = api_calls w1 @ ys"
    and "cooled cfg w w1" and "cooled cfg w1 w2"
  shows "cooled cfg w w2"
proof -
  have n: "new_calls w w2 = xs @ ys" "new_calls w w1 = xs" "new_calls w1 w2 = ys"
    using assms(1,2) by (simp_all add: new_calls_def)
  show ?thesis
    using assms(3,4) unfolding cooled_def n assms(1)
    by (auto simp: Ball_def)
qed

lemma send_all_paced:
  assumes "paced w"
  shows "paced (snd (send_all cfg ev channels results w)) \<and>
         cooled cfg w (snd (send_all cfg ev channels results w)) \<and>
         (\<exists>xs. api_calls (snd (send_all cfg ev channels results w)) = api_calls w @ xs)"
  using assms
proof (induction channels arbitrary: results w)
  case Nil
  then show ?case by (simp add: cooled_def new_calls_def)
next
  case (Cons ch channels)
  obtain r1 w1 where s: "send_one cfg ev ch results w = (r1, w1)"
    by (cases "send_one cfg ev ch results w")
  from send_one_paced [OF Cons.prems, of cfg ev ch results] s
  obtain xs where 1: "paced w1" "cooled cfg w w1" "api_calls w1 = api_calls w @ xs"
    by auto
  let ?w2 = "snd (send_all cfg ev channels r1 w1)"
  from Cons.IH [OF 1(1), of r1]
  obtain ys where 2: "paced ?w2" "cooled cfg w1 ?w2" "api_calls ?w2 = api_calls w1 @ ys"
    by auto
  have "cooled cfg w ?w2"
    using 1(3) 2(3) 1(2) 2(2) by (rule cooled_trans)
  with 1 2 show ?case
    unfolding send_all_Cons [OF s] by simp
qed

subsection \<open>The results of one pass over the channels\<close>




lemma broadcast_copy_posts:
  "posts_json (snd (broadcast_copy cfg ev from_chat_id message_id origin w)) =
     (if channels_json w = [] then posts_json w
      else posts_json w @
             [\<lparr>p_type = ''broadcast'', p_from_chat_id = from_chat_id,
               p_message_id = message_id,
               p_results = fst (send_all cfg ev (channels_json w) [] w),
               p_origin_admin = origin,
               p_time = clock (snd (send_all cfg ev (channels_json w) [] w))\<rparr>])"
  using send_all_frame [of cfg ev "channels_json w" "[]" w]
  by (auto simp: broadcast_copy_def Let_def record_post_def split: prod.splits)

subsection \<open>The status of an entry, step by step\<close>

lemma status_step_refl [simp]: "status_step s s"
  by (simp add: status_step_def)

lemma status_step_trans:
  "status_step s s' \<Longrightarrow> status_step s' s'' \<Longrightarrow> status_step s s''"
  by (auto simp: status_step_def terminal_def)

lemma promote_step: "status_step (e_status e) (e_status (promote ev now e))"
  by (simp add: promote_def status_step_def)

lemma dispatched_step: "dispatched e e' \<Longrightarrow> status_step (e_status e) (e_status e')"
  by (auto simp: dispatched_def status_step_def split: if_splits)

lemma steps_refl: "list_all2 status_step xs xs"
  by (simp add: list_all2_refl)

lemma steps_trans:
  "list_all2 status_step xs ys \<Longrightarrow> list_all2 status_step ys zs \<Longrightarrow>
   list_all2 status_step xs zs"
  by (rule list_all2_trans [OF status_step_trans])

subsection \<open>The saves of \<open>outbox.json\<close>\<close>

lemma history_fromI:
  assumes "versions w' = versions w @ vs" and "successively step (outbox_json w # vs)"
  shows "history_from step w w'"
  using assms by (simp add: history_from_def)

lemma history_fromE:
  assumes "history_from step w w'"
  obtains vs where "versions w' = versions w @ vs" and "successively step (outbox_json w # vs)"
proof -
  from assms obtain vs where vs: "versions w' = versions w @ vs"
    by (auto simp: history_from_def prefix_def)
  with assms have "successively step (outbox_json w # vs)"
    by (simp add: history_from_def)
  with vs show ?thesis by (rule that)
qed

lemma history_from_refl [simp]: "history_from step w w"
  by (rule history_fromI [where vs = "[]"]) simp_all

lemma last_versions: "versions w' = versions w @ vs \<Longrightarrow> outbox_json w' = last (outbox_json w # vs)"
proof -
  assume a: "versions w' = versions w @ vs"
  have "outbox_json w' = last (versions w')" by (simp add: versions_def)
  also have "\<dots> = last (versions w @ vs)" by (simp add: a)
  also have "\<dots> = last (outbox_json w # vs)" by (simp add: versions_def)
  finally show ?thesis .
qed

lemma history_from_trans:
  assumes "history_from step w w'" and "history_from step w' w''"
  shows "history_from step w w''"
proof -
  from assms(1) obtain vs where vs: "versions w' = versions w @ vs"
      "successively step (outbox_json w # vs)"
    by (rule history_fromE)
  from assms(2) obtain us where us: "versions w'' = versions w' @ us"
      "successively step (outbox_json w' # us)"
    by (rule history_fromE)
  have l: "outbox_json w' = last (outbox_json w # vs)"
    using vs(1) by (rule last_versions)
  have "successively step ((outbox_json w # vs) @ us)"
    unfolding successively_append_iff
    using vs(2) us(2) l by (auto simp: successively_Cons)
  then show ?thesis
    using vs(1) us(1) by (intro history_fromI [where vs = "vs @ us"]) simp_all
qed

lemma history_from_save:
  "step (outbox_json w) data \<Longrightarrow> history_from step w (save_outbox data w)"
  by (rule history_fromI [where vs = "[data]"]) (simp_all add: versions_def save_outbox_def)

lemma history_from_mono:
  assumes "history_from R w w'" and "\<And>a b. R a b \<Longrightarrow> S a b"
  shows "history_from S w w'"
proof -
  from assms(1) obtain vs where vs: "versions w' = versions w @ vs"
      "successively R (outbox_json w # vs)"
    by (rule history_fromE)
  from vs(2) have "successively S (outbox_json w # vs)"
    by (rule successively_mono) (rule assms(2))
  with vs(1) show ?thesis by (rule history_fromI)
qed

text \<open>Only the outbox and its history matter.\<close>

lemma history_from_same:
  assumes "outbox_json w' = outbox_json w" and "outbox_history w' = outbox_history w"
  shows "history_from step w0 w' = history_from step w0 w"
    and "history_from step w' w1 = history_from step w w1"
  using assms by (simp_all add: history_from_def versions_def)

lemma pending_append_version_step:
  assumes "pending_append old new"
  shows "version_step old new"
proof -
  from assms have n: "new = old @ [last new]" and p: "pending (last new)"
    by (auto simp: pending_append_def dest: arg_cong [where f = length])
       (metis append_butlast_last_id length_0_conv nat.simps(3))
  have "version_step old (old @ [last new])"
    using p by (simp add: version_step_def list_all2_refl min_absorb1)
  with n show ?thesis by simp
qed

lemma grown_follows:
  assumes "grown w w'"
  shows "follows w w'"
  using assms unfolding grown_def follows_def
  by (rule history_from_mono) (rule pending_append_version_step)

lemma appends_last:
  "successively pending_append (v # vs) \<Longrightarrow>
   \<exists>extra. last (v # vs) = v @ extra \<and> list_all pending extra"
proof (induction vs arbitrary: v)
  case Nil
  show ?case by simp
next
  case (Cons u vs)
  from Cons.prems have pa: "pending_append v u" and s: "successively pending_append (u # vs)"
    by simp_all
  from pa have u: "u = v @ [last u]" and p: "pending (last u)"
    by (auto simp: pending_append_def)
       (metis append_butlast_last_id length_0_conv nat.simps(3))
  from Cons.IH [OF s] obtain extra where e: "last (u # vs) = u @ extra" "list_all pending extra"
    by blast
  have "last (v # u # vs) = v @ (last u # extra)"
    using e(1) u by simp
  with e(2) p show ?case
    by (intro exI [of _ "last u # extra"]) simp
qed

lemma grown_outbox:
  assumes "grown w w'"
  obtains extra where "outbox_json w' = outbox_json w @ extra" and "list_all pending extra"
proof -
  from assms obtain vs where vs: "versions w' = versions w @ vs"
      "successively pending_append (outbox_json w # vs)"
    unfolding grown_def by (rule history_fromE)
  from appends_last [OF vs(2)] last_versions [OF vs(1)] that show ?thesis
    by auto
qed

subsection \<open>What a suspension can do to the outbox\<close>

lemma grown_refl [simp]: "grown w w"
  by (simp add: grown_def)

lemma grown_trans: "grown w w' \<Longrightarrow> grown w' w'' \<Longrightarrow> grown w w''"
  unfolding grown_def by (rule history_from_trans)

lemma grown_update [simp]:
  "grown w0 (w\<lparr>channels_json := a\<rparr>) = grown w0 w"
  "grown w0 (w\<lparr>posts_json := b\<rparr>) = grown w0 w"
  "grown w0 (w\<lparr>last_sent_times := c\<rparr>) = grown w0 w"
  "grown w0 (w\<lparr>forbidden_counts := d\<rparr>) = grown w0 w"
  "grown w0 (w\<lparr>clock := t\<rparr>) = grown w0 w"
  "grown w0 (w\<lparr>api_calls := f\<rparr>) = grown w0 w"
  "grown w0 (w\<lparr>draws := n\<rparr>) = grown w0 w"
  by (simp_all add: grown_def history_from_def versions_def)

lemma grown_from_update [simp]:
  "grown (w\<lparr>channels_json := a\<rparr>) w1 = grown w w1"
  "grown (w\<lparr>posts_json := b\<rparr>) w1 = grown w w1"
  "grown (w\<lparr>last_sent_times := c\<rparr>) w1 = grown w w1"
  "grown (w\<lparr>forbidden_counts := d\<rparr>) w1 = grown w w1"
  "grown (w\<lparr>clock := t\<rparr>) w1 = grown w w1"
  "grown (w\<lparr>api_calls := f\<rparr>) w1 = grown w w1"
  "grown (w\<lparr>draws := n\<rparr>) w1 = grown w w1"
  by (simp_all add: grown_def history_from_def versions_def)

lemma grown_handle_schedule:
  "grown w (handle_schedule is_admin reply_to_message send_at user_id w)"
proof -
  have "grown w (save_outbox (outbox_json w @ [e]) w)" if "pending e" for e
    unfolding grown_def
    using that by (intro history_from_save) (simp add: pending_append_def)
  then show ?thesis
    by (simp add: handle_schedule_def Let_def pending_def split: option.splits prod.splits)
qed

lemma grown_handle_request: "grown w (handle_request r w)"
  by (simp add: handle_request_def grown_handle_schedule split: prod.splits)

lemma grown_served: "grown w (foldl (\<lambda>w' r. handle_request r w') w rs)"
proof (induction rs arbitrary: w)
  case Nil
  show ?case by simp
next
  case (Cons r rs)
  have "grown w (handle_request r w)" by (rule grown_handle_request)
  moreover have "grown (handle_request r w)
                   (foldl (\<lambda>w' r. handle_request r w') (handle_request r w) rs)"
    by (rule Cons.IH)
  ultimately show ?case
    by (simp add: grown_trans)
qed

lemma grown_suspend: "grown w (suspend ev w)"
  by (simp add: suspend_def grown_served)

lemma grown_sleep: "grown w (sleep ev d w)"
  using grown_suspend [of "w\<lparr>clock := clock w + max 0 d\<rparr>" ev]
  by (simp add: sleep_def)

lemma grown_bot_call: "bot_call ev ch w = (r, w1) \<Longrightarrow> grown w w1"
  using grown_suspend [of "w\<lparr>api_calls := api_calls w @ [(ch, clock w)]\<rparr>" ev]
  by (auto simp: bot_call_def)

lemmas grown_copy_message = grown_bot_call [folded copy_message_def]

lemma grown_count_forbidden [simp]:
  "grown w0 (count_forbidden ch w) = grown w0 w"
  "grown (count_forbidden ch w) w1 = grown w w1"
  by (simp_all add: count_forbidden_def)

lemma grown_after_error [simp]:
  "grown w0 (after_error e ch w) = grown w0 w"
  "grown (after_error e ch w) w1 = grown w w1"
  by (simp_all add: after_error_def)

lemma grown_remove_channel: "grown w (snd (remove_channel ev ch w))"
  by (simp add: remove_channel_def Let_def grown_suspend)

lemma grown_record_post: "grown w (record_post ev meta w)"
  by (simp add: record_post_def Let_def grown_suspend)

lemma grown_cooldown_wait: "grown w (cooldown_wait cfg ev ch w)"
  by (simp add: cooldown_wait_def Let_def grown_sleep split: option.splits)

lemma grown_retry_loop: "grown w (final (retry_loop cfg ev ch attempt results w))"
proof (rule retry_loop_rule [where P = "\<lambda>attempt w out. grown w (final out)"])
  fix attempt w e w1
  assume "copy_message ev ch w = (Some e, w1)"
  then have "grown w w1" by (rule grown_copy_message)
  moreover have "grown w1 (snd (remove_channel ev ch (count_forbidden ch w1)))"
    using grown_remove_channel [of "count_forbidden ch w1" ev ch] by simp
  ultimately show "grown w (final (attempt + 1, False, results @ [res ch ''forbidden''],
                                   snd (remove_channel ev ch (count_forbidden ch w1))))"
    by (simp add: grown_trans)
next
  fix attempt w e w1 and out :: "int \<times> bool \<times> result list \<times> world"
  assume "copy_message ev ch w = (Some e, w1)"
    and ih: "grown (sleep ev (SEND_RETRY_DELAY cfg) (after_error e ch w1)) (final out)"
  then have "grown w w1" by (simp add: grown_copy_message)
  moreover have "grown w1 (sleep ev (SEND_RETRY_DELAY cfg) (after_error e ch w1))"
    using grown_sleep [of "after_error e ch w1" ev] by simp
  ultimately show "grown w (final out)"
    using ih by (blast intro: grown_trans)
qed (simp_all add: grown_copy_message)

lemma grown_send_one: "grown w (snd (send_one cfg ev ch results w))"
proof -
  let ?w1 = "cooldown_wait cfg ev ch w"
  obtain a s r w2 where rl: "retry_loop cfg ev ch 0 results ?w1 = (a, s, r, w2)"
    by (cases "retry_loop cfg ev ch 0 results ?w1") auto
  have "grown w ?w1" by (rule grown_cooldown_wait)
  moreover have "grown ?w1 w2"
    using grown_retry_loop [of ?w1 cfg ev ch 0 results] rl by simp
  moreover have "grown w2 (snd (send_one cfg ev ch results w))"
    using grown_sleep
      [of "w2\<lparr>last_sent_times := (last_sent_times w2)(ch \<mapsto> clock w2), draws := Suc (draws w2)\<rparr>" ev]
    by (simp add: send_one_unfold [OF rl])
  ultimately show ?thesis by (blast intro: grown_trans)
qed

lemma grown_send_all: "grown w (snd (send_all cfg ev channels results w))"
proof (induction channels arbitrary: results w)
  case Nil
  show ?case by simp
next
  case (Cons ch channels)
  obtain r1 w1 where s: "send_one cfg ev ch results w = (r1, w1)"
    by (cases "send_one cfg ev ch results w")
  have "grown w w1" using grown_send_one [of w cfg ev ch results] s by simp
  with Cons.IH [of w1 r1] show ?case
    unfolding send_all_Cons [OF s] by (blast intro: grown_trans)
qed

lemma grown_broadcast_copy:
  "grown w (snd (broadcast_copy cfg ev from_chat_id message_id origin w))"
proof (cases "channels_json w = []")
  case True
  then show ?thesis by (simp add: broadcast_copy_def)
next
  case False
  obtain rs w1 where s: "send_all cfg ev (channels_json w) [] w = (rs, w1)"
    by (cases "send_all cfg ev (channels_json w) [] w")
  have "grown w w1" using grown_send_all [of w cfg ev "channels_json w" "[]"] s by simp
  moreover have "grown w1 (snd (broadcast_copy cfg ev from_chat_id message_id origin w))"
    using False s by (simp add: broadcast_copy_def Let_def grown_record_post)
  ultimately show ?thesis by (rule grown_trans)
qed

lemma grown_send_file: "send_file ev e ch w = (r, w1) \<Longrightarrow> grown w w1"
  by (auto simp: send_file_def send_message_def send_document_def grown_bot_call
      split: option.splits if_splits)

lemma grown_send_direct: "grown w (snd (send_direct ev e channels results w))"
proof (induction channels arbitrary: results w)
  case Nil
  show ?case by simp
next
  case (Cons ch channels)
  obtain r w1 where s: "send_file ev e ch w = (r, w1)"
    by (cases "send_file ev e ch w")
  then have g: "grown w w1" by (rule grown_send_file)
  show ?case
  proof (cases r)
    case None
    with s g Cons.IH [of w1] show ?thesis
      by (auto intro: grown_trans)
  next
    case (Some x)
    with s g Cons.IH [of w1] show ?thesis
      by (auto intro: grown_trans)
  qed
qed

lemma grown_dispatch_entry: "grown w (snd (dispatch_entry cfg ev e w))"
  by (simp add: dispatch_entry_def case_prod_beta grown_broadcast_copy grown_send_direct
      split: option.splits)

lemma grown_dispatch: "grown w (snd (dispatch cfg ev es w))"
proof (induction es arbitrary: w)
  case Nil
  show ?case by simp
next
  case (Cons e es)
  obtain e' w1 where d: "dispatch_entry cfg ev e w = (e', w1)"
    by (cases "dispatch_entry cfg ev e w")
  obtain es' w2 where ds: "dispatch cfg ev es w1 = (es', w2)"
    by (cases "dispatch cfg ev es w1")
  have "grown w w1" using grown_dispatch_entry [of w cfg ev e] d by simp
  moreover have "grown w1 w2" using Cons.IH [of w1] ds by simp
  ultimately show ?case
    using d ds by (simp add: grown_trans)
qed

subsection \<open>What stays of the calls and of the ledger\<close>

lemma extends_refl [simp]: "extends w w"
  by (simp add: extends_def)

lemma extends_trans: "extends w w' \<Longrightarrow> extends w' w'' \<Longrightarrow> extends w w''"
  by (auto simp: extends_def)

lemma extends_same:
  "api_calls w' = api_calls w \<Longrightarrow> posts_json w' = posts_json w \<Longrightarrow> extends w w'"
  by (simp add: extends_def)

lemma extends_send_one: "extends w (snd (send_one cfg ev ch results w))"
  using send_one_calls [of cfg ev ch results w] send_one_frame [of cfg ev ch results w]
  by (auto simp: extends_def)

lemma extends_send_all: "extends w (snd (send_all cfg ev channels results w))"
proof (induction channels arbitrary: results w)
  case Nil
  show ?case by simp
next
  case (Cons ch channels)
  obtain r1 w1 where s: "send_one cfg ev ch results w = (r1, w1)"
    by (cases "send_one cfg ev ch results w")
  have "extends w w1" using extends_send_one [of w cfg ev ch results] s by simp
  with Cons.IH [of w1 r1] show ?case
    unfolding send_all_Cons [OF s] by (blast intro: extends_trans)
qed

lemma extends_broadcast_copy:
  "extends w (snd (broadcast_copy cfg ev from_chat_id message_id origin w))"
proof (cases "channels_json w = []")
  case True
  then show ?thesis by (simp add: broadcast_copy_def)
next
  case False
  obtain rs w1 where s: "send_all cfg ev (channels_json w) [] w = (rs, w1)"
    by (cases "send_all cfg ev (channels_json w) [] w")
  have "extends w w1" using extends_send_all [of w cfg ev "channels_json w" "[]"] s by simp
  moreover have "extends w1 (snd (broadcast_copy cfg ev from_chat_id message_id origin w))"
    using False s by (simp add: broadcast_copy_def Let_def record_post_def extends_def)
  ultimately show ?thesis by (rule extends_trans)
qed

lemma extends_send_file: "send_file ev e ch w = (r, w1) \<Longrightarrow> extends w w1"
  by (auto simp: send_file_def send_message_def send_document_def bot_call_def extends_def
      split: option.splits if_splits)

lemma extends_send_direct: "extends w (snd (send_direct ev e channels results w))"
proof (induction channels arbitrary: results w)
  case Nil
  show ?case by simp
next
  case (Cons ch channels)
  obtain r w1 where s: "send_file ev e ch w = (r, w1)"
    by (cases "send_file ev e ch w")
  then have g: "extends w w1" by (rule extends_send_file)
  show ?case
  proof (cases r)
    case None
    with s g Cons.IH [of w1] show ?thesis
      by (auto intro: extends_trans)
  next
    case (Some x)
    with s g Cons.IH [of w1] show ?thesis
      by (auto intro: extends_trans)
  qed
qed

lemma extends_dispatch_entry: "extends w (snd (dispatch_entry cfg ev e w))"
  by (simp add: dispatch_entry_def case_prod_beta extends_broadcast_copy extends_send_direct
      split: option.splits)

lemma extends_dispatch: "extends w (snd (dispatch cfg ev es w))"
proof (induction es arbitrary: w)
  case Nil
  show ?case by simp
next
  case (Cons e es)
  obtain e' w1 where d: "dispatch_entry cfg ev e w = (e', w1)"
    by (cases "dispatch_entry cfg ev e w")
  obtain es' w2 where ds: "dispatch cfg ev es w1 = (es', w2)"
    by (cases "dispatch cfg ev es w1")
  have "extends w w1" using extends_dispatch_entry [of w cfg ev e] d by simp
  moreover have "extends w1 w2" using Cons.IH [of w1] ds by simp
  ultimately show ?case
    using d ds by (simp add: extends_trans)
qed

subsection \<open>The two loops of a sweep cycle\<close>

lemma mark_due_Inr:
  "mark_due ev now es = Inr (es', changed) \<Longrightarrow> es' = map (promote ev now) es"
proof (induction es arbitrary: es' changed)
  case Nil
  then show ?case by simp
next
  case (Cons e es)
  then show ?case
    by (auto simp: promote_def due_def split: if_splits sum.splits prod.splits)
qed

lemma mark_due_Inl:
  "e_status e = Some ''pending'' \<Longrightarrow> parse_send_at ev e = Inl x \<Longrightarrow>
   mark_due ev now (e # es) = Inl x"
  by simp

lemma dispatch_entry_dispatched: "dispatched e (fst (dispatch_entry cfg ev e w))"
  by (simp add: dispatched_def dispatch_entry_def terminal_def
      split: option.splits prod.splits)

lemma dispatch_dispatched: "list_all2 dispatched es (fst (dispatch cfg ev es w))"
proof (induction es arbitrary: w)
  case Nil
  show ?case by simp
next
  case (Cons e es)
  obtain e' w1 where d: "dispatch_entry cfg ev e w = (e', w1)"
    by (cases "dispatch_entry cfg ev e w")
  obtain es' w2 where ds: "dispatch cfg ev es w1 = (es', w2)"
    by (cases "dispatch cfg ev es w1")
  have "dispatched e e'"
    using dispatch_entry_dispatched [of e cfg ev w] d by simp
  moreover have "list_all2 dispatched es es'"
    using Cons.IH [of w1] ds by simp
  ultimately show ?case
    using d ds by simp
qed

lemma mark_due_steps:
  assumes "mark_due ev now es = Inr (es', changed)"
  shows "list_all2 status_step (map e_status es) (map e_status es')"
  unfolding mark_due_Inr [OF assms]
  by (simp add: list_all2_map1 list_all2_map2 list_all2_refl promote_step)

lemma dispatch_steps:
  "list_all2 status_step (map e_status es) (map e_status (fst (dispatch cfg ev es w)))"
  using dispatch_dispatched [of es cfg ev w]
  by (simp add: list_all2_map1 list_all2_map2 list_all2_mono [OF _ dispatched_step])

lemma dispatch_length: "length (fst (dispatch cfg ev es w)) = length es"
  using dispatch_dispatched [of es cfg ev w] by (simp add: list_all2_lengthD)

lemma dispatch_append:
  "dispatch cfg ev (xs @ ys) w =
     (fst (dispatch cfg ev xs w) @ fst (dispatch cfg ev ys (snd (dispatch cfg ev xs w))),
      snd (dispatch cfg ev ys (snd (dispatch cfg ev xs w))))"
  by (induction xs arbitrary: w) (simp_all add: case_prod_beta)

text \<open>
  The entry at position \<open>i\<close> is handed to \<open>dispatch_entry\<close> in the state the entries
  before it have left, and what that does to the calls and the ledger stays.
\<close>

lemma dispatch_nth:
  assumes "i < length es"
  shows "fst (dispatch cfg ev es w) ! i =
           fst (dispatch_entry cfg ev (es ! i) (snd (dispatch cfg ev (take i es) w)))"
    and "extends (snd (dispatch_entry cfg ev (es ! i) (snd (dispatch cfg ev (take i es) w))))
           (snd (dispatch cfg ev es w))"
proof -
  let ?wi = "snd (dispatch cfg ev (take i es) w)"
  let ?rest = "drop (Suc i) es"
  have es: "es = take i es @ (es ! i # ?rest)"
    using assms by (simp add: id_take_nth_drop)
  have l: "length (fst (dispatch cfg ev (take i es) w)) = i"
    using assms by (simp add: dispatch_length)
  have d: "dispatch cfg ev es w =
           (fst (dispatch cfg ev (take i es) w) @ fst (dispatch cfg ev (es ! i # ?rest) ?wi),
            snd (dispatch cfg ev (es ! i # ?rest) ?wi))"
    using dispatch_append [of cfg ev "take i es" "es ! i # ?rest" w] es by simp
  have h: "fst (dispatch cfg ev (es ! i # ?rest) ?wi) =
             fst (dispatch_entry cfg ev (es ! i) ?wi) #
             fst (dispatch cfg ev ?rest (snd (dispatch_entry cfg ev (es ! i) ?wi)))"
    and t: "snd (dispatch cfg ev (es ! i # ?rest) ?wi) =
              snd (dispatch cfg ev ?rest (snd (dispatch_entry cfg ev (es ! i) ?wi)))"
    by (simp_all add: case_prod_beta)
  show "fst (dispatch cfg ev es w) ! i = fst (dispatch_entry cfg ev (es ! i) ?wi)"
    by (simp add: d nth_append l case_prod_beta)
  show "extends (snd (dispatch_entry cfg ev (es ! i) ?wi)) (snd (dispatch cfg ev es w))"
    by (simp add: d case_prod_beta extends_dispatch)
qed

lemma outbox_cycle_Inr:
  assumes "mark_due ev (clock w) (outbox_json (suspend ev w)) = Inr (outbox1, changed)"
  shows "outbox_cycle cfg ev w =
           save_outbox (fst (dispatch cfg ev outbox1 (after_first_loop ev outbox1 changed w)))
             (suspend ev (snd (dispatch cfg ev outbox1 (after_first_loop ev outbox1 changed w))))"
  using assms
  by (simp add: outbox_cycle_def Let_def after_first_loop_def case_prod_beta)

lemma outbox_cycle_Inl:
  assumes "mark_due ev (clock w) (outbox_json (suspend ev w)) = Inl x"
  shows "outbox_cycle cfg ev w = suspend ev w"
  using assms by (simp add: outbox_cycle_def Let_def)

lemma promote_dispatched_swept:
  "dispatched (promote ev now e) e' \<Longrightarrow> swept ev now e e'"
  by (auto simp: dispatched_def promote_def swept_def split: if_splits)

lemma outbox_cycle_swept:
  assumes "mark_due ev (clock w) (outbox_json (suspend ev w)) = Inr (outbox1, changed)"
  shows "list_all2 (swept ev (clock w)) (outbox_json (suspend ev w))
           (outbox_json (outbox_cycle cfg ev w))"
proof -
  have c: "outbox_json (outbox_cycle cfg ev w) =
           fst (dispatch cfg ev outbox1 (after_first_loop ev outbox1 changed w))"
    by (simp add: outbox_cycle_Inr [OF assms] save_outbox_def)
  have "list_all2 dispatched (map (promote ev (clock w)) (outbox_json (suspend ev w)))
          (outbox_json (outbox_cycle cfg ev w))"
    unfolding c mark_due_Inr [OF assms, symmetric] by (rule dispatch_dispatched)
  then show ?thesis
    by (simp add: list_all2_map1 list_all2_mono [OF _ promote_dispatched_swept])
qed

lemma extends_save_outbox [simp]:
  "extends w0 (save_outbox data w) = extends w0 w"
  by (simp add: extends_def save_outbox_def)

lemma extends_suspend [simp]: "extends w0 (suspend ev w) = extends w0 w"
  by (simp add: extends_def)

text \<open>An entry found \<open>sending\<close> at position \<open>i\<close> of the loaded outbox.\<close>

lemma outbox_cycle_nth:
  assumes "mark_due ev (clock w) (outbox_json (suspend ev w)) = Inr (outbox1, changed)"
    and "i < length (outbox_json (suspend ev w))"
    and "e_status (outbox_json (suspend ev w) ! i) = Some ''sending''"
  shows "outbox_json (outbox_cycle cfg ev w) ! i =
           fst (dispatch_entry cfg ev (outbox_json (suspend ev w) ! i)
                  (reached cfg ev outbox1 changed i w))"
    and "extends (snd (dispatch_entry cfg ev (outbox_json (suspend ev w) ! i)
                         (reached cfg ev outbox1 changed i w)))
           (outbox_cycle cfg ev w)"
proof -
  let ?L = "outbox_json (suspend ev w)"
  have o1: "outbox1 = map (promote ev (clock w)) ?L"
    using assms(1) by (rule mark_due_Inr)
  then have i: "i < length outbox1" and e: "outbox1 ! i = ?L ! i"
    using assms(2,3) by (simp_all add: promote_def)
  note n = dispatch_nth [OF i, of cfg ev "after_first_loop ev outbox1 changed w"]
  show "outbox_json (outbox_cycle cfg ev w) ! i =
          fst (dispatch_entry cfg ev (?L ! i) (reached cfg ev outbox1 changed i w))"
    using n(1) by (simp add: outbox_cycle_Inr [OF assms(1)] save_outbox_def reached_def e)
  show "extends (snd (dispatch_entry cfg ev (?L ! i) (reached cfg ev outbox1 changed i w)))
          (outbox_cycle cfg ev w)"
    using n(2) by (simp add: outbox_cycle_Inr [OF assms(1)] reached_def e)
qed

subsection \<open>The saves of a sweep cycle\<close>

lemma follows_refl [simp]: "follows w w"
  by (simp add: follows_def)

lemma follows_trans: "follows w w' \<Longrightarrow> follows w' w'' \<Longrightarrow> follows w w''"
  unfolding follows_def by (rule history_from_trans)

lemma version_step_save:
  assumes "length new = length base"
    and "list_all2 status_step (map e_status base) (map e_status new)"
    and "list_all pending extra"
  shows "version_step (base @ extra) new"
  using assms by (simp add: version_step_def min_absorb2)

lemma follows_save:
  "version_step (outbox_json w) data \<Longrightarrow> follows w (save_outbox data w)"
  unfolding follows_def by (rule history_from_save)

lemma outbox_cycle_follows: "follows w (outbox_cycle cfg ev w)"
proof (cases "mark_due ev (clock w) (outbox_json (suspend ev w))")
  case (Inl x)
  then show ?thesis
    by (simp add: outbox_cycle_Inl grown_follows grown_suspend)
next
  case (Inr p)
  obtain outbox1 changed where p: "p = (outbox1, changed)" by (cases p)
  note m = Inr [unfolded p]
  let ?ws = "suspend ev w"
  let ?L = "outbox_json ?ws"
  let ?w1 = "after_first_loop ev outbox1 changed w"
  let ?outbox2 = "fst (dispatch cfg ev outbox1 ?w1)"
  let ?w3 = "suspend ev (snd (dispatch cfg ev outbox1 ?w1))"
  have s1: "list_all2 status_step (map e_status ?L) (map e_status outbox1)"
    using m by (rule mark_due_steps)
  have s2: "list_all2 status_step (map e_status outbox1) (map e_status ?outbox2)"
    by (rule dispatch_steps)
  have l1: "length outbox1 = length ?L"
    using s1 by (auto dest: list_all2_lengthD)
  have l2: "length ?outbox2 = length outbox1"
    by (rule dispatch_length)
  have a: "follows w ?ws"
    by (simp add: grown_follows grown_suspend)
  have b: "follows ?ws ?w1"
  proof (cases changed)
    case True
    have "version_step (?L @ []) outbox1"
      using l1 s1 by (intro version_step_save) simp_all
    then show ?thesis
      using True by (simp add: after_first_loop_def follows_save)
  next
    case False
    then show ?thesis by (simp add: after_first_loop_def)
  qed
  have g: "grown ?w1 ?w3"
    using grown_dispatch [of ?w1 cfg ev outbox1]
      grown_suspend [of "snd (dispatch cfg ev outbox1 ?w1)" ev]
    by (rule grown_trans)
  then obtain extra where x: "outbox_json ?w3 = outbox_json ?w1 @ extra" "list_all pending extra"
    by (rule grown_outbox)
  have base: "length ?outbox2 = length (outbox_json ?w1) \<and>
              list_all2 status_step (map e_status (outbox_json ?w1)) (map e_status ?outbox2)"
  proof (cases changed)
    case True
    then show ?thesis
      using s2 l2 by (simp add: after_first_loop_def save_outbox_def)
  next
    case False
    then show ?thesis
      using steps_trans [OF s1 s2] l1 l2 by (simp add: after_first_loop_def)
  qed
  have "version_step (outbox_json ?w3) ?outbox2"
    unfolding x(1) using base x(2) by (intro version_step_save) simp_all
  then have d: "follows ?w3 (save_outbox ?outbox2 ?w3)"
    by (rule follows_save)
  have "follows w (save_outbox ?outbox2 ?w3)"
    using a b grown_follows [OF g] d by (blast intro: follows_trans)
  then show ?thesis
    by (simp add: outbox_cycle_Inr [OF m])
qed

lemma perform_follows: "follows w (perform cfg ev x w)"
proof (cases x)
  case (Schedule is_admin reply_to_message send_at user_id)
  then show ?thesis
    by (simp add: grown_follows grown_handle_schedule)
next
  case Sweep
  have "follows w (outbox_cycle cfg ev w)" by (rule outbox_cycle_follows)
  moreover have "follows (outbox_cycle cfg ev w) (sleep ev 1 (outbox_cycle cfg ev w))"
    by (simp add: grown_follows grown_sleep)
  ultimately show ?thesis
    using Sweep by (simp add: follows_trans)
qed

lemma perform_all_follows: "follows w (perform_all cfg ev xs w)"
proof (induction xs arbitrary: w)
  case Nil
  show ?case by simp
next
  case (Cons x xs)
  have "follows w (perform cfg ev x w)" by (rule perform_follows)
  with Cons.IH [of "perform cfg ev x w"] show ?case
    by (auto intro: follows_trans)
qed

subsection \<open>An entry that has left \<open>pending\<close>\<close>

lemma status_step_forward:
  "status_step s s' \<Longrightarrow>
   (s \<noteq> Some ''pending'' \<longrightarrow> s' \<noteq> Some ''pending'') \<and>
   (s \<noteq> Some ''pending'' \<and> s \<noteq> Some ''sending'' \<longrightarrow> s' = s)"
  by (auto simp: status_step_def terminal_def)

lemma version_step_nth:
  assumes "version_step old new" and "i < length old" and "\<not> pending (old ! i)"
  shows "i < length new" and "status_step (e_status (old ! i)) (e_status (new ! i))"
proof -
  let ?n = "min (length old) (length new)"
  show l: "i < length new"
  proof (rule ccontr)
    assume "\<not> i < length new"
    then have "old ! i \<in> set (drop ?n old)"
      using assms(2) by (auto simp: in_set_conv_nth min_absorb2 intro!: exI [of _ "i - length new"])
    with assms(1) have "pending (old ! i)"
      by (simp add: version_step_def list_all_iff)
    with assms(3) show False by simp
  qed
  from assms(1) have la: "list_all2 status_step (map e_status (take ?n old))
                             (map e_status (take ?n new))"
    by (simp add: version_step_def)
  have "status_step (map e_status (take ?n old) ! i) (map e_status (take ?n new) ! i)"
    by (rule list_all2_nthD [OF la]) (use l assms(2) in simp)
  then show "status_step (e_status (old ! i)) (e_status (new ! i))"
    using l assms(2) by simp
qed

lemma versions_kept:
  "successively version_step (v # vs) \<Longrightarrow> i < length v \<Longrightarrow> \<not> pending (v ! i) \<Longrightarrow>
   i < length (last (v # vs)) \<and> status_step (e_status (v ! i)) (e_status (last (v # vs) ! i))"
proof (induction vs arbitrary: v)
  case Nil
  then show ?case by simp
next
  case (Cons u vs)
  from Cons.prems(1) have vu: "version_step v u" and s: "successively version_step (u # vs)"
    by simp_all
  note n = version_step_nth [OF vu Cons.prems(2,3)]
  have "\<not> pending (u ! i)"
    using status_step_forward [OF n(2)] Cons.prems(3) by (simp add: pending_def)
  from Cons.IH [OF s n(1) this] n(2) show ?case
    by (auto intro: status_step_trans)
qed

lemma follows_kept:
  assumes "follows w w'" and "i < length (outbox_json w)" and "\<not> pending (outbox_json w ! i)"
  shows "i < length (outbox_json w') \<and>
         status_step (e_status (outbox_json w ! i)) (e_status (outbox_json w' ! i))"
proof -
  from assms(1) obtain vs where vs: "versions w' = versions w @ vs"
      "successively version_step (outbox_json w # vs)"
    unfolding follows_def by (rule history_fromE)
  from versions_kept [OF vs(2) assms(2,3)] last_versions [OF vs(1)] show ?thesis
    by simp
qed

lemma handle_schedule_outbox:
  "outbox_json (handle_schedule is_admin reply_to_message send_at user_id w) = outbox_json w \<or>
   (\<exists>e. outbox_json (handle_schedule is_admin reply_to_message send_at user_id w) =
          outbox_json w @ [e] \<and> pending e)"
  by (simp add: handle_schedule_def save_outbox_def pending_def Let_def
      split: option.splits prod.splits)

subsection \<open>Unfolding a run on a concrete input\<close>

lemmas run_broadcast =
  broadcast_copy_def send_one_def retry_loop.simps copy_message_def bot_call_def
  suspend_def sleep_def cooldown_wait_def count_forbidden_def forbidden_count_def
  remove_channel_def record_post_def write_log_def new_calls_def Let_def
  default_config_def alone_def fresh_def

lemmas run_sweep =
  outbox_cycle_def dispatch_entry_def parse_send_at_def copy_entry_def two_instants_def
  save_outbox_def run_broadcast

lemma alone_suspend: "suspend (alone script) w = w"
  by (simp add: suspend_def alone_def)

lemma alone_sleep_outbox:
  "outbox_json (sleep (alone script) d w) = outbox_json w"
  by (simp add: sleep_def alone_suspend)

subsection \<open>C1: the ledger\<close>

theorem C1_counterexample:
  "length (posts_json (snd (broadcast_copy default_config (alone always_ok) 7 42 (Some 1)
                              (fresh [] [])))) \<noteq>
   length (posts_json (fresh [] [])) + 1"
  by (simp add: broadcast_copy_def fresh_def)

text \<open>
  C1, amended. A broadcast over a non-empty channel list appends exactly one entry to
  \<open>posts.json\<close>: the record of type \<open>broadcast\<close> with the message reference, the results
  of the pass over the channels, the origin and the time at the end of that pass. A
  broadcast over an empty channel list appends nothing: it calls \<open>write_log\<close>, which
  is a no-op, and returns with the state as it was.
\<close>

theorem C1_ledger:
  "posts_json (snd (broadcast_copy cfg ev from_chat_id message_id origin w)) =
     (if channels_json w = [] then posts_json w
      else posts_json w @
             [\<lparr>p_type = ''broadcast'', p_from_chat_id = from_chat_id,
               p_message_id = message_id,
               p_results = fst (send_all cfg ev (channels_json w) [] w),
               p_origin_admin = origin,
               p_time = clock (snd (send_all cfg ev (channels_json w) [] w))\<rparr>]) \<and>
   (channels_json w = [] \<longrightarrow>
      snd (broadcast_copy cfg ev from_chat_id message_id origin w) = w)"
  using broadcast_copy_posts [of cfg ev from_chat_id message_id origin w]
  by (simp add: broadcast_copy_def)

theorem C1_ledger_witness:
  "channels_json (fresh [] []) = [] \<and>
   snd (broadcast_copy default_config (alone always_ok) 7 42 (Some 1) (fresh [] [])) = fresh [] []"
  using C1_ledger [of default_config "alone always_ok" 7 42 "Some 1" "fresh [] []"]
  by (simp add: fresh_def)

subsection \<open>C2: the results of a channel banned at its last attempt\<close>

text \<open>
  C2 at the default configuration, in a process that has just started, with one channel
  that answers every attempt with \<open>Forbidden\<close>: the third attempt brings the counter to
  the threshold, the channel is removed and \<open>forbidden\<close> is recorded; the test of line
  288 then holds as well, since \<open>attempt\<close> equals \<open>SEND_RETRY_COUNT\<close>, and \<open>failed\<close>
  is recorded for the same channel. When two rejections were counted before the
  broadcast, the first attempt reaches the threshold and \<open>forbidden\<close> is recorded alone.
\<close>

theorem C2_forbidden_and_failed:
  "map p_results (posts_json (snd (broadcast_copy default_config (alone always_forbidden)
                                     7 42 (Some 1) (fresh [''A''] [])))) =
     [[res ''A'' ''forbidden'', res ''A'' ''failed'']] \<and>
   channels_json (snd (broadcast_copy default_config (alone always_forbidden)
                         7 42 (Some 1) (fresh [''A''] []))) = [] \<and>
   map p_results (posts_json (snd (broadcast_copy default_config (alone always_forbidden)
                                     7 42 (Some 1) two_strikes))) =
     [[res ''A'' ''forbidden'']]"
  by (simp add: run_broadcast always_forbidden_def two_strikes_def)

subsection \<open>C3: the counter after a successful send\<close>

theorem C3_counterexample:
  "map p_results (posts_json (snd (broadcast_copy default_config (alone forbidden_then_ok)
                                     7 42 (Some 1) (fresh [''A''] [])))) =
     [[res ''A'' ''ok'']] \<and>
   forbidden_counts (snd (broadcast_copy default_config (alone forbidden_then_ok)
                            7 42 (Some 1) (fresh [''A''] []))) ''A'' = Some 1"
  by (simp add: run_broadcast forbidden_then_ok_def)

text \<open>
  C3, amended. No send resets a FailureCounter. An attempt that succeeds ends the retry
  loop with \<open>forbidden_counts\<close> as it was before the attempt; a broadcast never lowers
  the counter of any channel; and after a broadcast whose sends all succeed every
  counter has the value it had before the broadcast, which is zero only for a channel
  that had no rejection counted before.
\<close>

theorem C3_counter_kept:
  "(attempt < SEND_RETRY_COUNT cfg \<and> api ev (length (api_calls w)) ch = None \<longrightarrow>
      forbidden_counts (final (retry_loop cfg ev ch attempt results w)) = forbidden_counts w) \<and>
   forbidden_count w c
     \<le> forbidden_count (snd (broadcast_copy cfg ev from_chat_id message_id origin w)) c \<and>
   ((\<forall>n ch. api ev n ch = None) \<longrightarrow>
      forbidden_counts (snd (broadcast_copy cfg ev from_chat_id message_id origin w)) =
      forbidden_counts w)"
proof (intro conjI impI)
  assume a: "attempt < SEND_RETRY_COUNT cfg \<and> api ev (length (api_calls w)) ch = None"
  obtain r w1 where cm: "copy_message ev ch w = (r, w1)"
    by (cases "copy_message ev ch w")
  with a have "copy_message ev ch w = (None, w1)"
    using copy_message_fields(8) [OF cm] by simp
  with a show "forbidden_counts (final (retry_loop cfg ev ch attempt results w)) =
               forbidden_counts w"
    by (simp add: retry_loop_ok copy_message_fields(4))
next
  let ?chs = "channels_json w"
  obtain rs w1 where s: "send_all cfg ev ?chs [] w = (rs, w1)"
    by (cases "send_all cfg ev ?chs [] w")
  have b: "forbidden_counts (snd (broadcast_copy cfg ev from_chat_id message_id origin w)) =
           (if ?chs = [] then forbidden_counts w else forbidden_counts w1)"
    using s by (simp add: broadcast_copy_def Let_def record_post_def)
  show "forbidden_count w c
          \<le> forbidden_count (snd (broadcast_copy cfg ev from_chat_id message_id origin w)) c"
    using send_all_count_mono [of w c cfg ev ?chs "[]"] s b
    by (simp add: forbidden_count_def)
  show "forbidden_counts (snd (broadcast_copy cfg ev from_chat_id message_id origin w)) =
        forbidden_counts w"
    if "\<forall>n ch. api ev n ch = None"
    using send_all_all_ok [OF that, of cfg ?chs "[]" w] s b by simp
qed

theorem C3_counter_kept_witness:
  "(0 < SEND_RETRY_COUNT default_config \<and>
    api (alone always_ok) (length (api_calls (fresh [''A'', ''B''] []))) ''A'' = None) \<and>
   (\<forall>n ch. api (alone always_ok) n ch = None) \<and>
   forbidden_counts (final (retry_loop default_config (alone always_ok) ''A'' 0 []
                              (fresh [''A'', ''B''] []))) =
     forbidden_counts (fresh [''A'', ''B''] []) \<and>
   forbidden_counts (snd (broadcast_copy default_config (alone always_ok) 7 42 (Some 1)
                            (fresh [''A'', ''B''] []))) =
     forbidden_counts (fresh [''A'', ''B''] [])"
  using C3_counter_kept [of 0 default_config "alone always_ok" "fresh [''A'', ''B''] []"
      "''A''" "[]" "''A''" 7 42 "Some 1"]
  by (simp add: default_config_def alone_def always_ok_def fresh_def)

subsection \<open>C4: what follows a permanent rejection\<close>

theorem C4_counterexample:
  "new_calls (fresh [''A''] [])
     (snd (broadcast_copy default_config (alone always_forbidden) 7 42 (Some 1)
             (fresh [''A''] []))) =
   [(''A'', 1000), (''A'', 1002), (''A'', 1004)]"
  by (simp add: run_broadcast always_forbidden_def)

text \<open>
  C4, amended. Every attempt that fails with \<open>Forbidden\<close> increments the channel's
  FailureCounter. If auto-removal is on and the incremented counter reaches
  \<open>forbidden_threshold\<close>, the attempt is the last one of the channel's retry loop: the
  loop makes no further call, appends the record \<open>forbidden\<close> for the channel to the
  results and removes the channel from the registry; it ends without success and with
  this attempt counted, which is what line 288 tests afterwards (so that a ban on the last
  attempt allowed is followed by the record \<open>failed\<close>, see C2). Otherwise the rejection
  is retried like any other error: while attempts remain, the next attempt to the same
  channel follows after \<open>retry_delay\<close>.
\<close>

theorem C4_forbidden_attempt:
  assumes "attempt < SEND_RETRY_COUNT cfg"
    and "api ev (length (api_calls w)) ch = Some e"
    and "exn_name e = ''Forbidden''"
  shows "if REMOVE_ON_FORBIDDEN cfg \<and> FORBIDDEN_THRESHOLD cfg \<le> forbidden_count w ch + 1
         then new_calls w (final (retry_loop cfg ev ch attempt results w)) = [(ch, clock w)] \<and>
              fst (retry_loop cfg ev ch attempt results w) = attempt + 1 \<and>
              \<not> fst (snd (retry_loop cfg ev ch attempt results w)) \<and>
              fst (snd (snd (retry_loop cfg ev ch attempt results w))) =
                results @ [res ch ''forbidden''] \<and>
              forbidden_count (final (retry_loop cfg ev ch attempt results w)) ch =
                forbidden_count w ch + 1 \<and>
              channels_json (final (retry_loop cfg ev ch attempt results w)) =
                remove1 ch (others ev (count_forbidden ch (snd (copy_message ev ch w))))
         else forbidden_count w ch + 1
                \<le> forbidden_count (final (retry_loop cfg ev ch attempt results w)) ch \<and>
              (attempt + 1 < SEND_RETRY_COUNT cfg \<longrightarrow>
                 take 2 (new_calls w (final (retry_loop cfg ev ch attempt results w))) =
                   [(ch, clock w), (ch, clock w + max 0 (SEND_RETRY_DELAY cfg))])"
proof -
  obtain r w1 where cm0: "copy_message ev ch w = (r, w1)"
    by (cases "copy_message ev ch w")
  with assms(2) have cm: "copy_message ev ch w = (Some e, w1)"
    using copy_message_fields(8) [OF cm0] by simp
  note f = copy_message_fields [OF cm]
  show ?thesis
  proof (cases "REMOVE_ON_FORBIDDEN cfg \<and> FORBIDDEN_THRESHOLD cfg \<le> forbidden_count w ch + 1")
    case True
    then have "ban_now cfg e ch w" using assms(3) by (simp add: ban_now_def)
    then have "retry_loop cfg ev ch attempt results w =
                 (attempt + 1, False, results @ [res ch ''forbidden''],
                  snd (remove_channel ev ch (count_forbidden ch w1)))"
      using assms(1) cm by (rule retry_loop_ban [rotated 2])
    then show ?thesis
      using True cm f
      by (simp add: new_calls_def channels_json_remove_channel)
  next
    case False
    then have nb: "\<not> ban_now cfg e ch w" by (simp add: ban_now_def)
    let ?w2 = "sleep ev (SEND_RETRY_DELAY cfg) (after_error e ch w1)"
    have eq: "retry_loop cfg ev ch attempt results w =
              retry_loop cfg ev ch (attempt + 1) results ?w2"
      using assms(1) cm nb by (rule retry_loop_retry)
    obtain ts where ts: "attempts_ok cfg ch (attempt + 1) ?w2
                           (final (retry_loop cfg ev ch (attempt + 1) results ?w2)) ts"
      using retry_loop_calls' by blast
    have c: "forbidden_count ?w2 ch = forbidden_count w ch + 1"
      using assms(3) f by (simp add: forbidden_count_after_error)
    have m: "forbidden_count ?w2 ch
               \<le> forbidden_count (final (retry_loop cfg ev ch (attempt + 1) results ?w2)) ch"
      by (rule retry_loop_count_mono')
    have calls: "new_calls w (final (retry_loop cfg ev ch (attempt + 1) results ?w2)) =
                 (ch, clock w) # map (Pair ch) ts"
      using ts f by (simp add: attempts_ok_def new_calls_def)
    have "take 2 ((ch, clock w) # map (Pair ch) ts) =
            [(ch, clock w), (ch, clock w + max 0 (SEND_RETRY_DELAY cfg))]"
      if "attempt + 1 < SEND_RETRY_COUNT cfg"
    proof -
      from ts that have "ts \<noteq> []" and "hd ts = clock ?w2"
        by (simp_all add: attempts_ok_def)
      then show ?thesis
        using f by (cases ts) (simp_all add: numeral_2_eq_2)
    qed
    with c m calls have
      "forbidden_count w ch + 1
         \<le> forbidden_count (final (retry_loop cfg ev ch attempt results w)) ch \<and>
       (attempt + 1 < SEND_RETRY_COUNT cfg \<longrightarrow>
          take 2 (new_calls w (final (retry_loop cfg ev ch attempt results w))) =
            [(ch, clock w), (ch, clock w + max 0 (SEND_RETRY_DELAY cfg))])"
      by (simp add: eq)
    then show ?thesis
      by (simp only: if_not_P [OF False]) blast
  qed
qed

theorem C4_forbidden_attempt_witness:
  "0 < SEND_RETRY_COUNT default_config \<and>
   api (alone always_forbidden) (length (api_calls (fresh [''A''] []))) ''A'' =
     Some (Exn ''Forbidden'' ''bot was kicked from the channel'') \<and>
   take 2 (new_calls (fresh [''A''] [])
             (final (retry_loop default_config (alone always_forbidden) ''A'' 0 []
                       (fresh [''A''] [])))) =
     [(''A'', 1000), (''A'', 1002)] \<and>
   new_calls two_strikes
     (final (retry_loop default_config (alone always_forbidden) ''A'' 0 [] two_strikes)) =
     [(''A'', 1000)]"
  using C4_forbidden_attempt [of 0 default_config "alone always_forbidden" "fresh [''A''] []"
      "''A''" "Exn ''Forbidden'' ''bot was kicked from the channel''" "[]"]
    C4_forbidden_attempt [of 0 default_config "alone always_forbidden" two_strikes
      "''A''" "Exn ''Forbidden'' ''bot was kicked from the channel''" "[]"]
  by (simp add: default_config_def alone_def always_forbidden_def fresh_def
      forbidden_count_def two_strikes_def)

subsection \<open>C5: an entry found in \<open>sending\<close>\<close>

theorem C5_counterexample:
  "map e_status
     (outbox_json (outbox_cycle default_config (alone always_ok)
        (fresh [''A''] [copy_entry ''sending'' ''2024-01-01T00:00:00+00:00'']))) =
     [Some ''sent''] \<and>
   api_calls (outbox_cycle default_config (alone always_ok)
        (fresh [''A''] [copy_entry ''sending'' ''2024-01-01T00:00:00+00:00''])) =
     [(''A'', 1000)]"
  by (simp add: run_sweep always_ok_def)

text \<open>
  C5, amended. A sweep cycle whose first loop raises nothing dispatches every entry
  that is \<open>sending\<close> when the second loop reaches it: the entries the cycle has just
  promoted from \<open>pending\<close>, and also the entries that were \<open>sending\<close> when the
  outbox was loaded, such as one marked by a process that died before it recorded a
  terminal status. All of them end the cycle in a terminal status and every other entry
  is left as it is (\<open>swept\<close>). For an entry \<open>e\<close> found \<open>sending\<close> at position \<open>i\<close> of
  the loaded outbox the dispatch is this:
  \<^item> of kind \<open>copy\<close>, with its message reference: the cycle runs \<open>broadcast_copy\<close> for
    that reference in the state in which the second loop reaches the entry; the entry
    becomes \<open>sent\<close> with the time at the end of that broadcast, and the calls and the
    ledger entry of that broadcast are part of what the cycle leaves;
  \<^item> of kind \<open>file\<close>: the cycle sends to every channel registered in that state; the
    entry becomes \<open>sent\<close> with the results of those sends, and their calls are part of
    what the cycle leaves.
\<close>

theorem C5_sending_is_dispatched:
  assumes "mark_due ev (clock w) (outbox_json (suspend ev w)) = Inr (outbox1, changed)"
    and "i < length (outbox_json (suspend ev w))"
    and "outbox_json (suspend ev w) ! i = e"
    and "e_status e = Some ''sending''"
  shows "list_all2 (swept ev (clock w)) (outbox_json (suspend ev w))
           (outbox_json (outbox_cycle cfg ev w)) \<and>
         (e_type e = Some ''copy'' \<and> e_from_chat_id e = Some f \<and> e_message_id e = Some m \<longrightarrow>
            outbox_json (outbox_cycle cfg ev w) ! i =
              e\<lparr>e_status := Some ''sent'',
                e_sent_at := Some (clock (snd (broadcast_copy cfg ev f m (e_origin_admin e)
                                                (reached cfg ev outbox1 changed i w))))\<rparr> \<and>
            extends (snd (broadcast_copy cfg ev f m (e_origin_admin e)
                            (reached cfg ev outbox1 changed i w)))
              (outbox_cycle cfg ev w)) \<and>
         (e_type e = Some ''file'' \<longrightarrow>
            outbox_json (outbox_cycle cfg ev w) ! i =
              e\<lparr>e_status := Some ''sent'',
                e_results := Some (fst (send_direct ev e
                                          (channels_json (reached cfg ev outbox1 changed i w)) []
                                          (reached cfg ev outbox1 changed i w))),
                e_sent_at := Some (clock (snd (send_direct ev e
                                          (channels_json (reached cfg ev outbox1 changed i w)) []
                                          (reached cfg ev outbox1 changed i w))))\<rparr> \<and>
            extends (snd (send_direct ev e
                            (channels_json (reached cfg ev outbox1 changed i w)) []
                            (reached cfg ev outbox1 changed i w)))
              (outbox_cycle cfg ev w))"
proof -
  let ?wi = "reached cfg ev outbox1 changed i w"
  have s: "e_status (outbox_json (suspend ev w) ! i) = Some ''sending''"
    using assms(3,4) by simp
  note n = outbox_cycle_nth [OF assms(1,2) s, of cfg, unfolded assms(3)]
  have "list_all2 (swept ev (clock w)) (outbox_json (suspend ev w))
          (outbox_json (outbox_cycle cfg ev w))"
    using assms(1) by (rule outbox_cycle_swept)
  moreover have "outbox_json (outbox_cycle cfg ev w) ! i =
              e\<lparr>e_status := Some ''sent'',
                e_sent_at := Some (clock (snd (broadcast_copy cfg ev f m (e_origin_admin e) ?wi)))\<rparr> \<and>
            extends (snd (broadcast_copy cfg ev f m (e_origin_admin e) ?wi))
              (outbox_cycle cfg ev w)"
    if "e_type e = Some ''copy'' \<and> e_from_chat_id e = Some f \<and> e_message_id e = Some m"
  proof -
    have "dispatch_entry cfg ev e ?wi =
            (e\<lparr>e_status := Some ''sent'',
               e_sent_at := Some (clock (snd (broadcast_copy cfg ev f m (e_origin_admin e) ?wi)))\<rparr>,
             snd (broadcast_copy cfg ev f m (e_origin_admin e) ?wi))"
      using that assms(4) by (simp add: dispatch_entry_def case_prod_beta)
    with n show ?thesis by simp
  qed
  moreover have "outbox_json (outbox_cycle cfg ev w) ! i =
              e\<lparr>e_status := Some ''sent'',
                e_results := Some (fst (send_direct ev e (channels_json ?wi) [] ?wi)),
                e_sent_at := Some (clock (snd (send_direct ev e (channels_json ?wi) [] ?wi)))\<rparr> \<and>
            extends (snd (send_direct ev e (channels_json ?wi) [] ?wi)) (outbox_cycle cfg ev w)"
    if "e_type e = Some ''file''"
  proof -
    have "dispatch_entry cfg ev e ?wi =
            (e\<lparr>e_status := Some ''sent'',
               e_results := Some (fst (send_direct ev e (channels_json ?wi) [] ?wi)),
               e_sent_at := Some (clock (snd (send_direct ev e (channels_json ?wi) [] ?wi)))\<rparr>,
             snd (send_direct ev e (channels_json ?wi) [] ?wi))"
      using that assms(4) by (simp add: dispatch_entry_def case_prod_beta)
    with n show ?thesis by simp
  qed
  ultimately show ?thesis by blast
qed

theorem C5_sending_is_dispatched_witness:
  "mark_due (alone always_ok) (clock (fresh [''A''] [copy_entry ''sending'' ''tomorrow'']))
     (outbox_json (suspend (alone always_ok) (fresh [''A''] [copy_entry ''sending'' ''tomorrow'']))) =
     Inr ([copy_entry ''sending'' ''tomorrow''], False) \<and>
   0 < length (outbox_json (suspend (alone always_ok)
                  (fresh [''A''] [copy_entry ''sending'' ''tomorrow'']))) \<and>
   outbox_json (suspend (alone always_ok) (fresh [''A''] [copy_entry ''sending'' ''tomorrow''])) ! 0 =
     copy_entry ''sending'' ''tomorrow'' \<and>
   e_status (copy_entry ''sending'' ''tomorrow'') = Some ''sending'' \<and>
   (e_type (copy_entry ''sending'' ''tomorrow'') = Some ''copy'' \<and>
    e_from_chat_id (copy_entry ''sending'' ''tomorrow'') = Some 7 \<and>
    e_message_id (copy_entry ''sending'' ''tomorrow'') = Some 42) \<and>
   extends
     (snd (broadcast_copy default_config (alone always_ok) 7 42
             (e_origin_admin (copy_entry ''sending'' ''tomorrow''))
             (reached default_config (alone always_ok) [copy_entry ''sending'' ''tomorrow'']
                False 0 (fresh [''A''] [copy_entry ''sending'' ''tomorrow'']))))
     (outbox_cycle default_config (alone always_ok)
        (fresh [''A''] [copy_entry ''sending'' ''tomorrow''])) \<and>
   api_calls
     (snd (broadcast_copy default_config (alone always_ok) 7 42
             (e_origin_admin (copy_entry ''sending'' ''tomorrow''))
             (reached default_config (alone always_ok) [copy_entry ''sending'' ''tomorrow'']
                False 0 (fresh [''A''] [copy_entry ''sending'' ''tomorrow''])))) =
     [(''A'', 1000)] \<and>
   mark_due (unreadable always_ok) (clock (fresh [''A''] [file_entry ''sending'' ''post.pdf'']))
     (outbox_json (suspend (unreadable always_ok)
                     (fresh [''A''] [file_entry ''sending'' ''post.pdf'']))) =
     Inr ([file_entry ''sending'' ''post.pdf''], False) \<and>
   e_type (file_entry ''sending'' ''post.pdf'') = Some ''file'' \<and>
   outbox_json (outbox_cycle default_config (unreadable always_ok)
                  (fresh [''A''] [file_entry ''sending'' ''post.pdf''])) ! 0 =
     (file_entry ''sending'' ''post.pdf'')
       \<lparr>e_status := Some ''sent'',
        e_results := Some [\<lparr>r_channel = ''A'', r_status = ''error'',
                             r_err = Some ''[Errno 2] No such file or directory''\<rparr>],
        e_sent_at := Some 1000\<rparr> \<and>
   api_calls (outbox_cycle default_config (unreadable always_ok)
                (fresh [''A''] [file_entry ''sending'' ''post.pdf''])) = []"
proof -
  let ?e = "copy_entry ''sending'' ''tomorrow''"
  let ?w = "fresh [''A''] [?e]"
  let ?f = "file_entry ''sending'' ''post.pdf''"
  let ?v = "fresh [''A''] [?f]"
  have s: "suspend (unreadable always_ok) ?v = ?v"
    by (simp add: suspend_def unreadable_def fresh_def)
  have 1: "mark_due (alone always_ok) (clock ?w) (outbox_json (suspend (alone always_ok) ?w)) =
           Inr ([?e], False)"
    by (simp add: alone_suspend fresh_def copy_entry_def)
  have 2: "0 < length (outbox_json (suspend (alone always_ok) ?w))"
    by (simp add: alone_suspend fresh_def)
  have 3: "outbox_json (suspend (alone always_ok) ?w) ! 0 = ?e"
    by (simp add: alone_suspend fresh_def)
  have 4: "e_status ?e = Some ''sending''"
    by (simp add: copy_entry_def)
  have 5: "e_type ?e = Some ''copy'' \<and> e_from_chat_id ?e = Some 7 \<and> e_message_id ?e = Some 42"
    by (simp add: copy_entry_def)
  have 6: "api_calls
     (snd (broadcast_copy default_config (alone always_ok) 7 42 (e_origin_admin ?e)
             (reached default_config (alone always_ok) [?e] False 0 ?w))) = [(''A'', 1000)]"
    by (simp add: reached_def after_first_loop_def run_broadcast always_ok_def)
  have f1: "mark_due (unreadable always_ok) (clock ?v)
              (outbox_json (suspend (unreadable always_ok) ?v)) = Inr ([?f], False)"
    unfolding s by (simp add: fresh_def file_entry_def)
  have f2: "0 < length (outbox_json (suspend (unreadable always_ok) ?v))"
    unfolding s by (simp add: fresh_def)
  have f3: "outbox_json (suspend (unreadable always_ok) ?v) ! 0 = ?f"
    unfolding s by (simp add: fresh_def)
  have f4: "e_status ?f = Some ''sending''" and f5: "e_type ?f = Some ''file''"
    by (simp_all add: file_entry_def)
  have r: "reached default_config (unreadable always_ok) [?f] False 0 ?v = ?v"
    by (simp add: reached_def after_first_loop_def s)
  have f6: "send_direct (unreadable always_ok) ?f (channels_json ?v) [] ?v =
              ([\<lparr>r_channel = ''A'', r_status = ''error'',
                  r_err = Some ''[Errno 2] No such file or directory''\<rparr>], ?v)"
    by (simp add: send_file_def unreadable_def fresh_def file_entry_def write_log_def)
  have f7: "clock ?v = 1000"
    by (simp add: fresh_def)
  have f8: "api_calls (outbox_cycle default_config (unreadable always_ok) ?v) = []"
    by (simp add: outbox_cycle_def dispatch_entry_def send_file_def save_outbox_def
        suspend_def unreadable_def fresh_def file_entry_def write_log_def Let_def)
  from C5_sending_is_dispatched [OF 1 2 3 4, of default_config 7 42] 1 2 3 4 5 6
  have a: "extends
     (snd (broadcast_copy default_config (alone always_ok) 7 42 (e_origin_admin ?e)
             (reached default_config (alone always_ok) [?e] False 0 ?w)))
     (outbox_cycle default_config (alone always_ok) ?w)"
    by blast
  from C5_sending_is_dispatched [OF f1 f2 f3 f4, of default_config] f5
  have b: "outbox_json (outbox_cycle default_config (unreadable always_ok) ?v) ! 0 =
             ?f\<lparr>e_status := Some ''sent'',
                e_results := Some [\<lparr>r_channel = ''A'', r_status = ''error'',
                                     r_err = Some ''[Errno 2] No such file or directory''\<rparr>],
                e_sent_at := Some 1000\<rparr>"
    by (simp add: r f6 f7)
  from 1 2 3 4 5 6 a f1 f5 b f8 show ?thesis by blast
qed

subsection \<open>C6: the value returned\<close>

theorem C6_counterexample:
  "fst (broadcast_copy default_config (alone always_ok) 7 42 (Some 1) (fresh [] [])) \<noteq> Some []"
  by (simp add: broadcast_copy_def fresh_def)

text \<open>
  C6, amended. \<open>broadcast_copy\<close> returns no value: the call evaluates to \<open>None\<close> for
  every registry, empty or not. The list of \<open>{channel, status}\<close> records is not returned;
  it is stored in the ledger entry of a broadcast over a non-empty registry.
\<close>

theorem C6_returns_none:
  "fst (broadcast_copy cfg ev from_chat_id message_id origin w) = None"
  by (simp add: broadcast_copy_def Let_def split: prod.splits)

subsection \<open>C7: an entry whose time cannot be read\<close>

lemma stuck_mark_due:
  "mark_due (alone script) now stuck_outbox =
     Inl (Exn ''ValueError'' ''Invalid isoformat string'')"
  by (simp add: stuck_outbox_def copy_entry_def parse_send_at_def alone_def two_instants_def)

lemma stuck_cycle:
  "outbox_json w = stuck_outbox \<Longrightarrow> outbox_cycle cfg (alone script) w = w"
  using outbox_cycle_Inl [of "alone script" w _ cfg]
  by (simp add: stuck_mark_due alone_suspend)

lemma stuck_loop:
  "outbox_json w = stuck_outbox \<Longrightarrow>
   outbox_json (outbox_loop cfg (alone script) n w) = stuck_outbox \<and>
   api_calls (outbox_loop cfg (alone script) n w) = api_calls w"
proof (induction n arbitrary: w)
  case 0
  then show ?case by simp
next
  case (Suc n)
  let ?w1 = "sleep (alone script) 1 (outbox_cycle cfg (alone script) w)"
  have "outbox_json ?w1 = stuck_outbox" and "api_calls ?w1 = api_calls w"
    using Suc.prems by (simp_all add: stuck_cycle alone_sleep_outbox)
  with Suc.IH [of ?w1] show ?case by simp
qed

text \<open>
  C7 at an outbox of two pending entries, the first with the time \<open>tomorrow\<close>, which
  \<open>fromisoformat\<close> rejects, the second due: the first loop of every cycle raises at the
  first entry, the cycle ends in the handler of line 810, and after any number \<open>n\<close> of
  cycles the outbox is as it was and the bot has received no call. The malformed entry
  gets no status and the due entry is never dispatched. The due entry alone is sent by
  the first cycle.
\<close>

theorem C7_sweep_stuck:
  "outbox_json (outbox_loop default_config (alone always_ok) n (fresh [''A''] stuck_outbox)) =
     stuck_outbox \<and>
   api_calls (outbox_loop default_config (alone always_ok) n (fresh [''A''] stuck_outbox)) = [] \<and>
   map e_status
     (outbox_json (outbox_cycle default_config (alone always_ok)
                     (fresh [''A''] (tl stuck_outbox)))) = [Some ''sent'']"
proof -
  have "outbox_json (fresh [''A''] stuck_outbox) = stuck_outbox"
    and "api_calls (fresh [''A''] stuck_outbox) = []"
    by (simp_all add: fresh_def)
  with stuck_loop [of "fresh [''A''] stuck_outbox" default_config always_ok n]
  have "outbox_json (outbox_loop default_config (alone always_ok) n
                       (fresh [''A''] stuck_outbox)) = stuck_outbox \<and>
        api_calls (outbox_loop default_config (alone always_ok) n
                     (fresh [''A''] stuck_outbox)) = []"
    by simp
  moreover have "map e_status
     (outbox_json (outbox_cycle default_config (alone always_ok)
                     (fresh [''A''] (tl stuck_outbox)))) = [Some ''sent'']"
    by (simp add: stuck_outbox_def run_sweep always_ok_def)
  ultimately show ?thesis by blast
qed

subsection \<open>C8: the gap between two attempts to a channel\<close>

theorem C8_counterexample:
  "new_calls (fresh [''A''] [])
     (snd (broadcast_copy default_config (alone timeout_then_ok) 7 42 (Some 1)
             (fresh [''A''] []))) =
     [(''A'', 1000), (''A'', 1002)] \<and>
   1002 - 1000 < PER_CHANNEL_COOLDOWN default_config"
  by (simp add: run_broadcast timeout_then_ok_def)

text \<open>
  C8, amended. The cooldown separates the attempts of different broadcasts, not the
  retries of one. In a state where every earlier call was made at a positive time
  that \<open>last_sent_times\<close> covers (as broadcasts leave it, see \<open>paced\<close>), every
  attempt a broadcast makes to a channel comes at least \<open>per_channel_cooldown\<close> after
  every earlier attempt to that channel, and the broadcast leaves such a state again.
  The retry attempts of one retry loop are separated by \<open>retry_delay\<close> (by nothing when
  it is negative), whatever the cooldown is.
\<close>

theorem C8_cooldown_between_broadcasts:
  assumes "paced w"
  shows "paced (snd (broadcast_copy cfg ev from_chat_id message_id origin w)) \<and>
         cooled cfg w (snd (broadcast_copy cfg ev from_chat_id message_id origin w)) \<and>
         (\<exists>ts. new_calls w' (final (retry_loop cfg ev ch attempt results w')) =
                  map (Pair ch) ts \<and>
               spaced (max 0 (SEND_RETRY_DELAY cfg)) ts)"
proof -
  let ?chs = "channels_json w"
  obtain rs w1 where s: "send_all cfg ev ?chs [] w = (rs, w1)"
    by (cases "send_all cfg ev ?chs [] w")
  have p: "paced w1 \<and> cooled cfg w w1"
    using send_all_paced [OF assms, of cfg ev ?chs "[]"] s by simp
  have "paced (snd (broadcast_copy cfg ev from_chat_id message_id origin w)) \<and>
        cooled cfg w (snd (broadcast_copy cfg ev from_chat_id message_id origin w))"
  proof (cases "?chs = []")
    case True
    with assms show ?thesis
      by (simp add: broadcast_copy_def cooled_def new_calls_def)
  next
    case False
    with s p show ?thesis
      by (simp add: broadcast_copy_def Let_def record_post_def paced_def cooled_def
          new_calls_def)
  qed
  moreover obtain ts where
    "attempts_ok cfg ch attempt w' (final (retry_loop cfg ev ch attempt results w')) ts"
    using retry_loop_calls' by blast
  then have "new_calls w' (final (retry_loop cfg ev ch attempt results w')) =
               map (Pair ch) ts \<and> spaced (max 0 (SEND_RETRY_DELAY cfg)) ts"
    by (simp add: attempts_ok_def new_calls_def)
  ultimately show ?thesis by blast
qed

theorem C8_cooldown_between_broadcasts_witness:
  "paced (fresh [''A''] []) \<and>
   paced (snd (broadcast_copy default_config (alone timeout_then_ok) 7 42 (Some 1)
                 (fresh [''A''] []))) \<and>
   cooled default_config
     (snd (broadcast_copy default_config (alone timeout_then_ok) 7 42 (Some 1)
             (fresh [''A''] [])))
     (snd (broadcast_copy default_config (alone timeout_then_ok) 8 43 (Some 1)
        (snd (broadcast_copy default_config (alone timeout_then_ok) 7 42 (Some 1)
                (fresh [''A''] [])))))"
proof -
  have 0: "paced (fresh [''A''] [])"
    by (simp add: paced_def fresh_def)
  note 1 = C8_cooldown_between_broadcasts [OF 0, of default_config "alone timeout_then_ok" 7 42
      "Some 1"]
  then have "paced (snd (broadcast_copy default_config (alone timeout_then_ok) 7 42 (Some 1)
                           (fresh [''A''] [])))"
    by blast
  note 2 = C8_cooldown_between_broadcasts [OF this, of default_config "alone timeout_then_ok"
      8 43 "Some 1"]
  from 0 1 2 show ?thesis by blast
qed

subsection \<open>C9: the statuses of an outbox entry\<close>

text \<open>
  C9. Take any sequence of schedule requests and sweep cycles, in an environment whose
  \<open>requests\<close> are arbitrary, so that schedule requests are also served at every
  suspension inside a sweep cycle (where the save that ends the cycle drops their
  entries again). Every save of \<open>outbox.json\<close> during the run respects the status
  order (\<open>follows\<close>): at each position the status moves only along
  \<open>pending\<close>, \<open>sending\<close>, then one of \<open>sent\<close>, \<open>error\<close>, \<open>unknown_type\<close>, with
  steps left out or none taken; the entries a save adds are pending, and so are those it
  drops. Hence an entry that has left \<open>pending\<close> stays in the outbox at its position
  and is never back to \<open>pending\<close>, nor back to \<open>sending\<close> once terminal. The same
  order holds for each of the two loops of a sweep cycle on its own, and a schedule
  request leaves the entries it finds as they are and appends at most one entry, which is
  pending.
\<close>

theorem C9_status_monotone:
  "follows w (perform_all cfg ev xs w) \<and>
   (i < length (outbox_json w) \<and> \<not> pending (outbox_json w ! i) \<longrightarrow>
      i < length (outbox_json (perform_all cfg ev xs w)) \<and>
      status_step (e_status (outbox_json w ! i))
        (e_status (outbox_json (perform_all cfg ev xs w) ! i))) \<and>
   (mark_due ev now es = Inr (es', changed) \<longrightarrow>
      list_all2 status_step (map e_status es) (map e_status es')) \<and>
   list_all2 status_step (map e_status es) (map e_status (fst (dispatch cfg ev es w'))) \<and>
   (outbox_json (handle_schedule is_admin reply_to_message send_at user_id w) = outbox_json w \<or>
    (\<exists>e. outbox_json (handle_schedule is_admin reply_to_message send_at user_id w) =
           outbox_json w @ [e] \<and> pending e))"
  using perform_all_follows [of w cfg ev xs]
    follows_kept [OF perform_all_follows [of w cfg ev xs], of i]
    mark_due_steps [of ev now es es' changed]
    dispatch_steps [of es cfg ev w']
    handle_schedule_outbox [of is_admin reply_to_message send_at user_id w]
  by blast

theorem C9_status_monotone_witness:
  "mark_due (busy always_ok) 1000 [copy_entry ''pending'' ''2024-01-01T00:00:00+00:00''] =
     Inr ([copy_entry ''sending'' ''2024-01-01T00:00:00+00:00''], True) \<and>
   list_all2 status_step
     (map e_status [copy_entry ''pending'' ''2024-01-01T00:00:00+00:00''])
     (map e_status [copy_entry ''sending'' ''2024-01-01T00:00:00+00:00'']) \<and>
   (0 < length (outbox_json (fresh [''A''] [copy_entry ''sending'' ''tomorrow''])) \<and>
    \<not> pending (outbox_json (fresh [''A''] [copy_entry ''sending'' ''tomorrow'']) ! 0)) \<and>
   status_step
     (e_status (outbox_json (fresh [''A''] [copy_entry ''sending'' ''tomorrow'']) ! 0))
     (e_status (outbox_json (perform_all default_config (busy always_ok) [Sweep]
                               (fresh [''A''] [copy_entry ''sending'' ''tomorrow''])) ! 0)) \<and>
   follows (fresh [''A''] [copy_entry ''pending'' ''2024-01-01T00:00:00+00:00''])
     (perform_all default_config (busy always_ok) [Sweep]
        (fresh [''A''] [copy_entry ''pending'' ''2024-01-01T00:00:00+00:00''])) \<and>
   map (map e_status)
     (versions (outbox_cycle default_config (busy always_ok)
                  (fresh [''A''] [copy_entry ''pending'' ''2024-01-01T00:00:00+00:00'']))) =
     [[Some ''pending''],
      [Some ''pending'', Some ''pending''],
      [Some ''sending'', Some ''pending''],
      [Some ''sending'', Some ''pending'', Some ''pending''],
      [Some ''sent'', Some ''pending'']]"
proof -
  have m: "mark_due (busy always_ok) 1000 [copy_entry ''pending'' ''2024-01-01T00:00:00+00:00''] =
           Inr ([copy_entry ''sending'' ''2024-01-01T00:00:00+00:00''], True)"
    by (simp add: copy_entry_def parse_send_at_def busy_def two_instants_def)
  have p: "0 < length (outbox_json (fresh [''A''] [copy_entry ''sending'' ''tomorrow''])) \<and>
           \<not> pending (outbox_json (fresh [''A''] [copy_entry ''sending'' ''tomorrow'']) ! 0)"
    by (simp add: fresh_def copy_entry_def pending_def)
  have v: "map (map e_status)
     (versions (outbox_cycle default_config (busy always_ok)
                  (fresh [''A''] [copy_entry ''pending'' ''2024-01-01T00:00:00+00:00'']))) =
     [[Some ''pending''],
      [Some ''pending'', Some ''pending''],
      [Some ''sending'', Some ''pending''],
      [Some ''sending'', Some ''pending'', Some ''pending''],
      [Some ''sent'', Some ''pending'']]"
    by (simp add: outbox_cycle_def dispatch_entry_def parse_send_at_def copy_entry_def
        two_instants_def save_outbox_def broadcast_copy_def send_one_def retry_loop.simps
        copy_message_def bot_call_def suspend_def sleep_def cooldown_wait_def record_post_def
        write_log_def Let_def default_config_def busy_def fresh_def versions_def
        handle_request_def handle_schedule_def always_ok_def)
  from m p v
    C9_status_monotone [of "fresh [''A''] [copy_entry ''sending'' ''tomorrow'']"
      default_config "busy always_ok" "[Sweep]" 0 1000
      "[copy_entry ''pending'' ''2024-01-01T00:00:00+00:00'']"
      "[copy_entry ''sending'' ''2024-01-01T00:00:00+00:00'']" True]
    C9_status_monotone [of "fresh [''A''] [copy_entry ''pending'' ''2024-01-01T00:00:00+00:00'']"
      default_config "busy always_ok" "[Sweep]"]
  show ?thesis by blast
qed

subsection \<open>C10: the channels a broadcast attempts\<close>




end
